theory Spec2Isabelle
  imports Complex_Main "HOL-Library.Log_Nat" "HOL-Library.Word" "HOL-Library.AList"
begin

unbundle bit_operations_syntax

section \<open>Python values used by the string obfuscators\<close>

text \<open>
  A Python \<open>str\<close> is a sequence of code points. It is read here as a \<open>string\<close>, whose
  characters stand for the code points below 256: a character below 128 is one byte of
  the UTF-8 encoding, a character from 128 on is two bytes. A \<open>bytearray\<close> is a list of
  8-bit words. Exceptions are values of \<open>py_error\<close>, and a function that may raise returns
  \<open>py_error + 'a\<close>.
\<close>

datatype py_error =
  ValueError | TypeError | IndexError | UnboundLocalError | AttributeError | ZeroDivisionError

type_synonym byte = "8 word"

definition ascii :: "string \<Rightarrow> bool" where
  "ascii s = list_all (\<lambda>c. (of_char c :: nat) < 128) s"

text \<open>\<open>bytes(s, "utf-8")\<close>, for code points below 256.\<close>

definition utf8_char :: "char \<Rightarrow> byte list" where
  "utf8_char c =
     (let n = (of_char c :: nat)
      in if n < 128 then [of_nat n]
         else [of_nat (192 + n div 64), of_nat (128 + n mod 64)])"

definition utf8 :: "string \<Rightarrow> byte list" where
  "utf8 s = concat (map utf8_char s)"

text \<open>\<open>range(0, stop, step)\<close>: a step of zero raises, \<open>None\<close> as the step is a type error.\<close>

definition py_range :: "nat \<Rightarrow> nat option \<Rightarrow> py_error + nat list" where
  "py_range stop step =
     (case step of
        None \<Rightarrow> Inl TypeError
      | Some k \<Rightarrow> if k = 0 then Inl ValueError
                  else Inr (filter (\<lambda>i. i mod k = 0) [0..<stop]))"

text \<open>\<open>format(i, "0" + str(w) + "b")\<close>: the binary digits of \<open>i\<close>, padded with zeros on
  the left to at least \<open>w\<close> digits.\<close>

fun bin_str :: "nat \<Rightarrow> string" where
  "bin_str n =
     (if n < 2 then [if n = 0 then CHR ''0'' else CHR ''1'']
      else bin_str (n div 2) @ [if n mod 2 = 0 then CHR ''0'' else CHR ''1''])"

declare bin_str.simps [simp del]

definition format_0b :: "nat \<Rightarrow> nat \<Rightarrow> string" where
  "format_0b i w = replicate (w - length (bin_str i)) (CHR ''0'') @ bin_str i"

text \<open>\<open>s.replace(old, new)\<close> for one-character \<open>old\<close> and \<open>new\<close>.\<close>

definition replace_char :: "char \<Rightarrow> char \<Rightarrow> string \<Rightarrow> string" where
  "replace_char old new s = map (\<lambda>c. if c = old then new else c) s"

section \<open>The mangler\<close>

text \<open>
  Modelled from the spec: the Assembler (\<open>self.mangler\<close>, class \<open>Mangler\<close>, not among the
  sources) accepts single template lines, sets of lines to be put in random order, and a
  request for padding, and serialises them. The model records the calls in the order they
  are made; \<open>getFinalPayload\<close> hands the record back.
\<close>

datatype mangler_call =
    PayloadLine string
  | LinesInRandomOrder "(string \<times> string) list"
  | Junk

definition addPayloadLine :: "string \<Rightarrow> mangler_call list \<Rightarrow> mangler_call list" where
  "addPayloadLine l m = m @ [PayloadLine l]"

definition addLinesInRandomOrder ::
    "(string \<times> string) list \<Rightarrow> mangler_call list \<Rightarrow> mangler_call list" where
  "addLinesInRandomOrder ls m = m @ [LinesInRandomOrder ls]"

definition addJunk :: "mangler_call list \<Rightarrow> mangler_call list" where
  "addJunk m = m @ [Junk]"

section \<open>GlobObfuscator\<close>

text \<open>
  The fields of a \<open>GlobObfuscator\<close> that \<open>generate\<close>, \<open>setSizes\<close> and \<open>mutate\<close> read and
  write. \<open>sectionSize\<close> and \<open>workingDir\<close> are \<open>None\<close> after \<open>__init__\<close>; \<open>startingDir\<close> does
  not exist before \<open>setSizes\<close>. \<open>uniqueStrs\<close> counts the calls of \<open>randUniqueStr\<close>.

  Two collaborators are not among the sources and are parameters of every operation:
  \<open>esc\<close> is \<open>escapeQuotes\<close>, and \<open>uniq k\<close> is what the \<open>k\<close>-th call of
  \<open>randGen.randUniqueStr()\<close> returns.
\<close>

record GlobObfuscator =
  sizePref :: int
  writeDir :: string
  workingDir :: "string option"
  sectionSize :: "nat option"
  startingDir :: "string option"
  mangler :: "mangler_call list"
  uniqueStrs :: nat

definition init_glob :: "int \<Rightarrow> string \<Rightarrow> GlobObfuscator" where
  "init_glob pref wd =
     \<lparr> sizePref = pref, writeDir = wd, workingDir = None, sectionSize = None,
       startingDir = None, mangler = [], uniqueStrs = 0 \<rparr>"

text \<open>\<open>[userCmd[i:i + sectionSize] for i in range(0, len(userCmd), sectionSize)]\<close>\<close>

definition cmdChunks :: "nat option \<Rightarrow> string \<Rightarrow> py_error + string list" where
  "cmdChunks sz userCmd =
     (case py_range (length userCmd) sz of
        Inl e \<Rightarrow> Inl e
      | Inr idxs \<Rightarrow> Inr (map (\<lambda>i. take (the sz) (drop i userCmd)) idxs))"

text \<open>
  \<open>int(math.ceil(math.log(cmdLen, 2)))\<close>, then raised to 1 when it is not positive.
  \<open>math.log(0, 2)\<close> raises \<open>ValueError\<close>. \<open>math.log(n, 2)\<close> is a quotient of two doubles. For
  fewer than \<open>2 ^ 29\<close> chunks its ceiling is the ceiling of the real logarithm, which
  is what the model computes (\<open>ceillog2 n\<close> is \<open>nat \<lceil>log 2 n\<rceil>\<close> for positive \<open>n\<close>). From
  \<open>2 ^ 29\<close> chunks on the quotient can lie above an exact integer value
  (\<open>math.log(2 ** 29, 2)\<close> is \<open>29.000000000000004\<close>, so that the code's width is 30 there
  and the model's 29): the model is the code's for fewer than \<open>2 ^ 29\<close> chunks only, and
  the index width of a run of \<open>generate\<close> is stated below within that bound.
\<close>

definition cmdLogLen :: "nat \<Rightarrow> py_error + nat" where
  "cmdLogLen cmdLen =
     (if cmdLen = 0 then Inl ValueError
      else let l = ceillog2 cmdLen in Inr (if l \<le> 0 then 1 else l))"

text \<open>The name of the file of chunk \<open>i\<close>:
  \<open>format(i, "0" + str(cmdLogLen) + "b").replace("0", "?").replace("1", "\n")\<close>\<close>

definition chunkName :: "nat \<Rightarrow> nat \<Rightarrow> string" where
  "chunkName w i = replace_char (CHR ''1'') (CHR 0x0A) (replace_char (CHR ''0'') (CHR ''?'') (format_0b i w))"

definition printLine :: "string \<Rightarrow> nat \<Rightarrow> nat \<Rightarrow> string" where
  "printLine wd w i =
     ''* *:printf:^ ^%s^ ^'' @ [CHR 0x27] @ ''DATA'' @ [CHR 0x27] @ ''? ?>? ?'' @ [CHR 0x27]
       @ wd @ ''/'' @ chunkName w i @ [CHR 0x27] @ ''* *END0''"

text \<open>The loop \<open>for i in range(cmdLen): printLines.update({...: escapeQuotes(cmdChars[i])})\<close>;
  the dictionary keeps insertion order and a repeated key keeps its place.\<close>

definition printLines ::
    "(string \<Rightarrow> string) \<Rightarrow> string \<Rightarrow> nat \<Rightarrow> string list \<Rightarrow> (string \<times> string) list" where
  "printLines esc wd w cmdChars =
     fold (\<lambda>i d. AList.update (printLine wd w i) (esc (cmdChars ! i)) d) [0..<length cmdChars] []"

definition mkdirLine :: "string \<Rightarrow> string" where
  "mkdirLine wd = ''* *:mkdir:^ ^-p^ ^'' @ [CHR 0x27] @ wd @ [CHR 0x27] @ ''* *END0''"

definition catLine :: "string \<Rightarrow> nat \<Rightarrow> string" where
  "catLine wd w = ''* *:cat:^ ^'' @ [CHR 0x27] @ wd @ [CHR 0x27] @ ''/'' @ replicate w (CHR ''?'') @ ''* *END0''"

definition rmLine :: "string \<Rightarrow> nat \<Rightarrow> string" where
  "rmLine wd w = ''* *:rm:^ ^'' @ [CHR 0x27] @ wd @ [CHR 0x27] @ ''/'' @ replicate w (CHR ''?'') @ ''* *END0''"

text \<open>\<open>GlobObfuscator.generate(userCmd, writeableDir=None)\<close>. A \<open>writeableDir\<close> that is
  \<open>None\<close> or empty is falsy.\<close>

definition generate ::
    "(string \<Rightarrow> string) \<Rightarrow> GlobObfuscator \<Rightarrow> string \<Rightarrow> string option \<Rightarrow> py_error + GlobObfuscator" where
  "generate esc self userCmd writeableDir =
     (case startingDir self of
        None \<Rightarrow> Inl AttributeError
      | Some sd \<Rightarrow>
          let wd = (case writeableDir of
                      None \<Rightarrow> sd
                    | Some d \<Rightarrow> if d = [] then sd else sd @ ''/'' @ esc d);
              self = self\<lparr>workingDir := Some wd\<rparr>
          in case cmdChunks (sectionSize self) userCmd of
               Inl e \<Rightarrow> Inl e
             | Inr cmdChars \<Rightarrow>
                 (case cmdLogLen (length cmdChars) of
                    Inl e \<Rightarrow> Inl e
                  | Inr w \<Rightarrow>
                      Inr (self\<lparr>mangler :=
                             addPayloadLine (rmLine wd w)
                               (addPayloadLine (catLine wd w)
                                 (addLinesInRandomOrder (printLines esc wd w cmdChars)
                                   (addPayloadLine (mkdirLine wd) (mangler self))))\<rparr>)))"

text \<open>\<open>GlobObfuscator.setSizes(userCmd)\<close>: \<open>int(len(userCmd) / 10 + 1)\<close> is
  \<open>len(userCmd) div 10 + 1\<close> (the division of doubles is exact enough for every length a
  command can have); a \<open>sizePref\<close> other than 1, 2, 3 leaves \<open>sectionSize\<close> as it is.\<close>

definition setSizes ::
    "(string \<Rightarrow> string) \<Rightarrow> (nat \<Rightarrow> string) \<Rightarrow> GlobObfuscator \<Rightarrow> string \<Rightarrow> GlobObfuscator" where
  "setSizes esc uniq self userCmd =
     (let self =
            (if sizePref self = 1 then self\<lparr>sectionSize := Some (length userCmd div 10 + 1)\<rparr>
             else if sizePref self = 2 then self\<lparr>sectionSize := Some (length userCmd div 100 + 1)\<rparr>
             else if sizePref self = 3 then self\<lparr>sectionSize := Some 1\<rparr>
             else self)
      in self\<lparr>startingDir := Some (esc (writeDir self @ uniq (uniqueStrs self))),
              uniqueStrs := Suc (uniqueStrs self)\<rparr>)"

definition rmdirLine :: "string \<Rightarrow> string" where
  "rmdirLine wd = ''* *:rmdir:^ ^'' @ [CHR 0x27] @ wd @ [CHR 0x27] @ ''END0''"

text \<open>\<open>FileGlob.mutate(userCmd)\<close>\<close>

definition FileGlob_mutate ::
    "(string \<Rightarrow> string) \<Rightarrow> (nat \<Rightarrow> string) \<Rightarrow> GlobObfuscator \<Rightarrow> string \<Rightarrow> py_error + mangler_call list" where
  "FileGlob_mutate esc uniq self userCmd =
     (let self = setSizes esc uniq self userCmd
      in case generate esc self userCmd None of
           Inl e \<Rightarrow> Inl e
         | Inr self \<Rightarrow>
             Inr (addPayloadLine (rmdirLine (the (workingDir self)) @ ''* *'') (mangler self)))"

text \<open>\<open>FolderGlob.mutate(userCmd)\<close>: the loop over the chunks, then the last line.\<close>

fun FolderGlob_loop ::
    "(string \<Rightarrow> string) \<Rightarrow> (nat \<Rightarrow> string) \<Rightarrow> GlobObfuscator \<Rightarrow> string list \<Rightarrow> py_error + GlobObfuscator" where
  "FolderGlob_loop esc uniq self [] = Inr self"
| "FolderGlob_loop esc uniq self (chunk # rest) =
     (let d = uniq (uniqueStrs self);
          self = self\<lparr>uniqueStrs := Suc (uniqueStrs self)\<rparr>
      in case generate esc self chunk (Some d) of
           Inl e \<Rightarrow> Inl e
         | Inr self \<Rightarrow>
             FolderGlob_loop esc uniq
               (self\<lparr>mangler := addPayloadLine (rmdirLine (the (workingDir self))) (mangler self)\<rparr>)
               rest)"

definition FolderGlob_mutate ::
    "(string \<Rightarrow> string) \<Rightarrow> (nat \<Rightarrow> string) \<Rightarrow> GlobObfuscator \<Rightarrow> string \<Rightarrow> py_error + mangler_call list" where
  "FolderGlob_mutate esc uniq self userCmd =
     (let self = setSizes esc uniq self userCmd
      in case cmdChunks (sectionSize self) userCmd of
           Inl e \<Rightarrow> Inl e
         | Inr chunks \<Rightarrow>
             (case FolderGlob_loop esc uniq self chunks of
                Inl e \<Rightarrow> Inl e
              | Inr self \<Rightarrow>
                  Inr (addPayloadLine (rmdirLine (the (startingDir self)) @ ''* *'') (mangler self))))"

section \<open>The random generator\<close>

text \<open>
  Modelled from the spec: the RandomnessProvider (\<open>self.randGen\<close>, class \<open>RandomGen\<close>, not
  among the sources) supplies \<open>randomString(minLen, maxLen)\<close>, a string drawn from a fixed
  allowed character set, and \<open>randomChoice\<close>, a random element of a sequence. Randomness
  is a tape \<open>rnd :: nat \<Rightarrow> nat\<close> read at a cursor that every draw advances: every sequence
  of outcomes is the reading of some tape. A choice from an empty sequence is the error
  \<open>IndexError\<close> and an empty range of lengths the error \<open>ValueError\<close>, as with
  \<open>random.choice\<close> and \<open>random.randint\<close>. The allowed character set \<open>_randStrCharList\<close>
  is the parameter \<open>charList\<close>.
\<close>

type_synonym tape = "nat \<Rightarrow> nat"

definition randSelect :: "tape \<Rightarrow> nat \<Rightarrow> 'a list \<Rightarrow> py_error + ('a \<times> nat)" where
  "randSelect rnd c xs =
     (if xs = [] then Inl IndexError else Inr (xs ! (rnd c mod length xs), Suc c))"

definition randGenStr :: "tape \<Rightarrow> nat \<Rightarrow> string \<Rightarrow> nat \<Rightarrow> nat \<Rightarrow> py_error + (string \<times> nat)" where
  "randGenStr rnd c charList minStrLen maxStrLen =
     (if maxStrLen < minStrLen then Inl ValueError
      else let n = minStrLen + rnd c mod (maxStrLen - minStrLen + 1)
           in if 0 < n \<and> charList = [] then Inl IndexError
              else Inr (map (\<lambda>j. charList ! (rnd (Suc c + j) mod length charList)) [0..<n],
                        Suc c + n))"

section \<open>XorNonNull\<close>

text \<open>\<open>chr(b)\<close> for a byte \<open>b\<close>, and \<open>int.from_bytes(bytes(ch, "utf-8"), byteorder='big')\<close>.\<close>

definition chr :: "byte \<Rightarrow> char" where
  "chr b = char_of (unat b)"

definition int_from_bytes :: "byte list \<Rightarrow> nat" where
  "int_from_bytes bs = foldl (\<lambda>acc b. acc * 256 + unat b) 0 bs"

text \<open>\<open>userCmd[i::keyLen]\<close>, for a positive \<open>keyLen\<close>.\<close>

definition stride :: "nat \<Rightarrow> nat \<Rightarrow> 'a list \<Rightarrow> 'a list" where
  "stride i keyLen xs = map (\<lambda>j. xs ! j) (filter (\<lambda>j. (j - i) mod keyLen = 0) [i..<length xs])"

text \<open>
  The blacklist of \<open>genXorKey\<close>: a copy of the allowed characters from which, for every
  character of the set \<open>nullchars\<close>, the first occurrence is removed when there is one.
\<close>

definition charBlackList :: "string \<Rightarrow> string \<Rightarrow> string" where
  "charBlackList charList nullchars = fold remove1 (remdups nullchars) charList"

text \<open>The loop \<open>for i in range(keyLen)\<close> of \<open>genXorKey\<close>. Storing a value of 256 or more
  into a \<open>bytearray\<close> raises \<open>ValueError\<close>; the result \<open>None\<close> is the early \<open>return None\<close>.\<close>

fun genXorKey_loop ::
    "tape \<Rightarrow> string \<Rightarrow> nat \<Rightarrow> string \<Rightarrow> nat list \<Rightarrow> byte list \<Rightarrow> nat
      \<Rightarrow> py_error + (byte list option \<times> nat)" where
  "genXorKey_loop rnd charList keyLen userCmd [] xorKeyBytes c = Inr (Some xorKeyBytes, c)"
| "genXorKey_loop rnd charList keyLen userCmd (i # rest) xorKeyBytes c =
     (let nullchars = stride i keyLen userCmd
      in if length xorKeyBytes \<le> i then Inl IndexError
         else if chr (xorKeyBytes ! i) \<in> set nullchars then
           (let blackList = charBlackList charList nullchars
            in if 0 < length blackList then
                 (case randSelect rnd c blackList of
                    Inl e \<Rightarrow> Inl e
                  | Inr (ch, c') \<Rightarrow>
                      let v = int_from_bytes (utf8_char ch)
                      in if 256 \<le> v then Inl ValueError
                         else genXorKey_loop rnd charList keyLen userCmd rest
                                (xorKeyBytes[i := of_nat v]) c')
               else Inr (None, c))
         else genXorKey_loop rnd charList keyLen userCmd rest xorKeyBytes c)"

text \<open>\<open>XorNonNull.genXorKey(keyLen, userCmd)\<close>\<close>

definition genXorKey ::
    "tape \<Rightarrow> nat \<Rightarrow> string \<Rightarrow> nat \<Rightarrow> string \<Rightarrow> py_error + (byte list option \<times> nat)" where
  "genXorKey rnd c charList keyLen userCmd =
     (case randGenStr rnd c charList keyLen keyLen of
        Inl e \<Rightarrow> Inl e
      | Inr (s, c') \<Rightarrow> genXorKey_loop rnd charList keyLen userCmd [0..<keyLen] (utf8 s) c')"

text \<open>The initial \<open>keyLen\<close> of \<open>XorNonNull.mutate\<close>; with another \<open>sizePref\<close> the name
  \<open>keyLen\<close> is unbound when the loop first reads it.\<close>

definition initKeyLen :: "int \<Rightarrow> string \<Rightarrow> py_error + nat" where
  "initKeyLen pref userCmd =
     (if pref = 1 then Inr (length userCmd div 100 + 1)
      else if pref = 2 then Inr (length userCmd div 10 + 1)
      else if pref = 3 then Inr (length userCmd)
      else Inl UnboundLocalError)"

text \<open>
  The loop \<open>while not xorKeyBytes: keyLen = keyLen + 1; xorKeyBytes = genXorKey(keyLen, userCmd)\<close>.
  \<open>None\<close> and the empty \<open>bytearray\<close> are falsy. \<open>tried\<close> is not a variable of the source: it
  records the key lengths at which \<open>genXorKey\<close> was called, in order. A loop that never
  ends is the value \<open>None\<close>.
\<close>

partial_function (option) keySearch ::
    "tape \<Rightarrow> string \<Rightarrow> string \<Rightarrow> nat \<Rightarrow> nat list \<Rightarrow> nat
      \<Rightarrow> (py_error + (nat list \<times> nat \<times> byte list \<times> nat)) option" where
  "keySearch rnd charList userCmd keyLen tried c =
     (case genXorKey rnd c charList (Suc keyLen) userCmd of
        Inl e \<Rightarrow> Some (Inl e)
      | Inr (xorKeyBytes, c') \<Rightarrow>
          (case xorKeyBytes of
             None \<Rightarrow> keySearch rnd charList userCmd (Suc keyLen) (tried @ [Suc keyLen]) c'
           | Some k \<Rightarrow>
               if k = [] then keySearch rnd charList userCmd (Suc keyLen) (tried @ [Suc keyLen]) c'
               else Some (Inr (tried @ [Suc keyLen], Suc keyLen, k, c'))))"

declare keySearch.simps [code]

text \<open>The loop \<open>for i in range(len(userCmd)): cmdBytes[i] ^= xorKeyBytes[i % keyLen]\<close>.\<close>

fun xor_loop :: "byte list \<Rightarrow> nat \<Rightarrow> nat list \<Rightarrow> byte list \<Rightarrow> py_error + byte list" where
  "xor_loop xorKeyBytes keyLen [] cmdBytes = Inr cmdBytes"
| "xor_loop xorKeyBytes keyLen (i # rest) cmdBytes =
     (if length cmdBytes \<le> i then Inl IndexError
      else if keyLen = 0 then Inl ZeroDivisionError
      else if length xorKeyBytes \<le> i mod keyLen then Inl IndexError
      else xor_loop xorKeyBytes keyLen rest
             (cmdBytes[i := (cmdBytes ! i) XOR (xorKeyBytes ! (i mod keyLen))]))"

definition xorCmd :: "byte list \<Rightarrow> nat \<Rightarrow> string \<Rightarrow> py_error + byte list" where
  "xorCmd xorKeyBytes keyLen userCmd =
     xor_loop xorKeyBytes keyLen [0..<length userCmd] (utf8 userCmd)"

text \<open>
  \<open>XorNonNull.mutate(userCmd)\<close> from the choice of the initial key length to the end of the
  XOR loop: the lengths tried, the final \<open>keyLen\<close>, the key and the bytes \<open>cmdBytes\<close>.
\<close>

definition XorNonNull_cipher ::
    "tape \<Rightarrow> nat \<Rightarrow> string \<Rightarrow> int \<Rightarrow> string
      \<Rightarrow> (py_error + (nat list \<times> nat \<times> byte list \<times> byte list)) option" where
  "XorNonNull_cipher rnd c charList pref userCmd =
     (case initKeyLen pref userCmd of
        Inl e \<Rightarrow> Some (Inl e)
      | Inr keyLen0 \<Rightarrow>
          (case keySearch rnd charList userCmd keyLen0 [] c of
             None \<Rightarrow> None
           | Some (Inl e) \<Rightarrow> Some (Inl e)
           | Some (Inr (tried, keyLen, xorKeyBytes, c')) \<Rightarrow>
               (case xorCmd xorKeyBytes keyLen userCmd of
                  Inl e \<Rightarrow> Some (Inl e)
                | Inr cmdBytes \<Rightarrow> Some (Inr (tried, keyLen, xorKeyBytes, cmdBytes)))))"

section \<open>HexHash\<close>

text \<open>\<open>bytes.hex()\<close>: two lower-case hexadecimal digits for every byte.\<close>

definition hexdigit :: "nat \<Rightarrow> char" where
  "hexdigit n = ''0123456789abcdef'' ! (n mod 16)"

definition hex_byte :: "byte \<Rightarrow> string" where
  "hex_byte b = [hexdigit (unat b div 16), hexdigit (unat b mod 16)]"

definition bytes_hex :: "byte list \<Rightarrow> string" where
  "bytes_hex bs = concat (map hex_byte bs)"

text \<open>\<open>str(bytes(ch, "utf-8").hex())\<close>\<close>

definition hexchar :: "char \<Rightarrow> string" where
  "hexchar ch = bytes_hex (utf8_char ch)"

text \<open>\<open>hay.find(needle)\<close> and \<open>needle in hay\<close> on strings.\<close>

fun find_sub :: "string \<Rightarrow> string \<Rightarrow> nat option" where
  "find_sub needle [] = (if needle = [] then Some 0 else None)"
| "find_sub needle (h # hay) =
     (if take (length needle) (h # hay) = needle then Some 0
      else map_option Suc (find_sub needle hay))"

definition py_find :: "string \<Rightarrow> string \<Rightarrow> int" where
  "py_find hay needle = (case find_sub needle hay of None \<Rightarrow> - 1 | Some i \<Rightarrow> int i)"

definition py_in :: "string \<Rightarrow> string \<Rightarrow> bool" where
  "py_in needle hay = (find_sub needle hay \<noteq> None)"

text \<open>\<open>str(n)\<close> for an integer.\<close>

fun str_nat :: "nat \<Rightarrow> string" where
  "str_nat n =
     (if n < 10 then [char_of (48 + n)] else str_nat (n div 10) @ [char_of (48 + n mod 10)])"

declare str_nat.simps [simp del]

definition str_int :: "int \<Rightarrow> string" where
  "str_int i = (if i < 0 then ''-'' @ str_nat (nat (- i)) else str_nat (nat i))"

text \<open>
  The loop \<open>while not hexchar in randomhash\<close> of \<open>HexHash.mutate\<close>, with the variables
  \<open>randomString\<close> (unbound before the first round) and \<open>randomhash\<close>. \<open>md5\<close> stands for
  \<open>hashlib.md5(...).hexdigest()\<close>, and \<open>lo\<close>, \<open>hi\<close> for the default length bounds of
  \<open>randGenStr()\<close>. A search that never ends is the value \<open>None\<close>.
\<close>

partial_function (option) hashSearch ::
    "(byte list \<Rightarrow> string) \<Rightarrow> tape \<Rightarrow> string \<Rightarrow> nat \<Rightarrow> nat \<Rightarrow> string \<Rightarrow> string option \<Rightarrow> string \<Rightarrow> nat
      \<Rightarrow> (py_error + (string option \<times> string \<times> nat)) option" where
  "hashSearch md5 rnd charList lo hi hexch randomString randomhash c =
     (if \<not> py_in hexch randomhash then
        (case randGenStr rnd c charList lo hi of
           Inl e \<Rightarrow> Some (Inl e)
         | Inr (s, c') \<Rightarrow> hashSearch md5 rnd charList lo hi hexch (Some s) (md5 (utf8 s)) c')
      else Some (Inr (randomString, randomhash, c)))"

declare hashSearch.simps [code]

text \<open>The payload line of one character, from the seed and \<open>index\<close>.\<close>

definition hashLine :: "string \<Rightarrow> int \<Rightarrow> string" where
  "hashLine randomString index =
     ''* *:printf:^ ^'' @ [CHR 0x22, CHR 0x5C] @ ''x$(:printf:^ ^%s^ ^'' @ [CHR 0x27] @ randomString
       @ [CHR 0x27] @ ''* *|* *:md5sum:* *|* *:cut:^ ^-b^ ^'' @ str_int (index + 1) @ ''-''
       @ str_int (index + 2) @ ''* *)'' @ [CHR 0x22] @ ''* *END0''"

text \<open>One round of \<open>for ch in userCmd\<close>: the search, then \<open>index = randomhash.find(hexchar)\<close>.
  The result is the seed, its digest, \<open>index\<close> and the cursor.\<close>

definition HexHash_char ::
    "(byte list \<Rightarrow> string) \<Rightarrow> tape \<Rightarrow> string \<Rightarrow> nat \<Rightarrow> nat \<Rightarrow> char \<Rightarrow> nat
      \<Rightarrow> (py_error + (string \<times> string \<times> int \<times> nat)) option" where
  "HexHash_char md5 rnd charList lo hi ch c =
     (case hashSearch md5 rnd charList lo hi (hexchar ch) None [] c of
        None \<Rightarrow> None
      | Some (Inl e) \<Rightarrow> Some (Inl e)
      | Some (Inr (randomString, randomhash, c')) \<Rightarrow>
          (case randomString of
             None \<Rightarrow> Some (Inl UnboundLocalError)
           | Some s \<Rightarrow> Some (Inr (s, randomhash, py_find randomhash (hexchar ch), c'))))"

text \<open>\<open>HexHash.mutate(userCmd)\<close>\<close>

fun HexHash_loop ::
    "(byte list \<Rightarrow> string) \<Rightarrow> tape \<Rightarrow> string \<Rightarrow> nat \<Rightarrow> nat \<Rightarrow> mangler_call list \<Rightarrow> string \<Rightarrow> nat
      \<Rightarrow> (py_error + mangler_call list) option" where
  "HexHash_loop md5 rnd charList lo hi m [] c = Some (Inr m)"
| "HexHash_loop md5 rnd charList lo hi m (ch # rest) c =
     (case HexHash_char md5 rnd charList lo hi ch c of
        None \<Rightarrow> None
      | Some (Inl e) \<Rightarrow> Some (Inl e)
      | Some (Inr (s, randomhash, index, c')) \<Rightarrow>
          HexHash_loop md5 rnd charList lo hi (addPayloadLine (hashLine s index) m) rest c')"

definition HexHash_mutate ::
    "(byte list \<Rightarrow> string) \<Rightarrow> tape \<Rightarrow> string \<Rightarrow> nat \<Rightarrow> nat \<Rightarrow> string \<Rightarrow> nat
      \<Rightarrow> (py_error + mangler_call list) option" where
  "HexHash_mutate md5 rnd charList lo hi userCmd c =
     (case HexHash_loop md5 rnd charList lo hi [] userCmd c of
        None \<Rightarrow> None
      | Some (Inl e) \<Rightarrow> Some (Inl e)
      | Some (Inr m) \<Rightarrow> Some (Inr (addJunk m)))"

text \<open>
  What the emitted line asks of the interpreter: \<open>cut -b lo-hi\<close> reads \<open>lo\<close> and \<open>hi\<close> as
  decimal numerals and keeps the bytes \<open>lo\<close> to \<open>hi\<close> of its input line, counted from 1,
  and \<open>printf "\xHH"\<close> prints the byte whose value the two hexadecimal digits \<open>HH\<close>
  denote.
\<close>

definition dec_val :: "string \<Rightarrow> nat" where
  "dec_val s = foldl (\<lambda>acc d. acc * 10 + ((of_char d :: nat) - 48)) 0 s"

definition cut_b :: "nat \<Rightarrow> nat \<Rightarrow> string \<Rightarrow> string" where
  "cut_b lo hi line = take (Suc hi - lo) (drop (lo - 1) line)"

definition hexdigit_val :: "char \<Rightarrow> nat" where
  "hexdigit_val d =
     (let n = (of_char d :: nat)
      in if 48 \<le> n \<and> n \<le> 57 then n - 48 else if 97 \<le> n \<and> n \<le> 102 then n - 87 else 0)"

definition hex_val :: "string \<Rightarrow> nat" where
  "hex_val s = foldl (\<lambda>acc d. acc * 16 + hexdigit_val d) 0 s"

section \<open>The target interpreter's rules for names\<close>

text \<open>
  The payloads rely on two rules of the interpreter that runs them. A pattern is matched
  against a file name character by character: a \<open>?\<close> of the pattern matches any one
  character, another character matches itself (the patterns emitted here hold nothing
  else). The names a pattern matches are listed in the lexicographic order of the
  collation in force; \<open>rank\<close> gives the collating weight of a character, and
  \<open>of_char\<close>, the code of the character, is the byte order.
\<close>

fun glob_match :: "string \<Rightarrow> string \<Rightarrow> bool" where
  "glob_match [] [] = True"
| "glob_match (p # ps) (c # cs) = ((p = CHR ''?'' \<or> p = c) \<and> glob_match ps cs)"
| "glob_match [] (c # cs) = False"
| "glob_match (p # ps) [] = False"

fun lex_less :: "(char \<Rightarrow> nat) \<Rightarrow> string \<Rightarrow> string \<Rightarrow> bool" where
  "lex_less rank [] [] = False"
| "lex_less rank [] (y # ys) = True"
| "lex_less rank (x # xs) [] = False"
| "lex_less rank (x # xs) (y # ys) =
     (rank x < rank y \<or> (rank x = rank y \<and> lex_less rank xs ys))"

text \<open>The two replacements of \<open>chunkName\<close> as one function of a character.\<close>

definition glob_digit :: "char \<Rightarrow> char" where
  "glob_digit d = (if d = CHR ''0'' then CHR ''?'' else if d = CHR ''1'' then CHR 0x0A else d)"

section \<open>The glob encoders on the empty command\<close>

text \<open>
  C4. For the empty command the list of chunks is empty, \<open>cmdLen\<close> is 0 and
  \<open>math.log(0, 2)\<close> raises \<open>ValueError\<close> before any line is handed to the mangler:
  \<open>FileGlob.mutate\<close> raises at every size preference, it does not return a payload with
  the directory lines only. The sibling encoders do return a payload for the empty
  command: \<open>FolderGlob.mutate\<close> the removal of its starting directory, \<open>HexHash.mutate\<close> the
  padding alone.
\<close>

theorem FileGlob_mutate_empty_raises:
  "FileGlob_mutate esc uniq (init_glob 1 wd) [] = Inl ValueError
   \<and> FileGlob_mutate esc uniq (init_glob 2 wd) [] = Inl ValueError
   \<and> FileGlob_mutate esc uniq (init_glob 3 wd) [] = Inl ValueError
   \<and> generate esc (setSizes esc uniq (init_glob 3 wd) []) [] None = Inl ValueError
   \<and> mangler (setSizes esc uniq (init_glob 3 wd) []) = []
   \<and> FolderGlob_mutate esc uniq (init_glob 3 wd) []
        = Inr [PayloadLine (rmdirLine (esc (wd @ uniq 0)) @ ''* *'')]
   \<and> HexHash_mutate md5 rnd charList lo hi [] c = Some (Inr [Junk])"
  by (simp add: FileGlob_mutate_def FolderGlob_mutate_def setSizes_def init_glob_def generate_def
      cmdChunks_def py_range_def cmdLogLen_def HexHash_mutate_def addJunk_def addPayloadLine_def)

text \<open>
  C10. For the empty command \<open>FolderGlob.mutate\<close> makes no call of \<open>generate\<close>: the list of
  chunks is empty. With a size preference of 1, 2 or 3 it adds exactly one line to the
  mangler, \<open>* *:rmdir:^ ^'D'END0* *\<close>, the removal of the starting directory
  \<open>D = escapeQuotes(writeDir + randUniqueStr())\<close> that \<open>setSizes\<close> has chosen. On a fresh
  mangler the payload is that one line, which is no directory creation, no file write, no
  read, no file removal and no removal of a chunk's directory.
\<close>

theorem FolderGlob_mutate_empty:
  assumes "sizePref self \<in> {1, 2, 3}"
  shows "startingDir (setSizes esc uniq self []) = Some (esc (writeDir self @ uniq (uniqueStrs self)))
         \<and> cmdChunks (sectionSize (setSizes esc uniq self [])) [] = Inr []
         \<and> FolderGlob_mutate esc uniq self [] =
             Inr (mangler self @
                  [PayloadLine (''* *:rmdir:^ ^'' @ [CHR 0x27]
                                 @ esc (writeDir self @ uniq (uniqueStrs self))
                                 @ [CHR 0x27] @ ''END0* *'')])
         \<and> (mangler self = [] \<longrightarrow>
              (\<exists>l. FolderGlob_mutate esc uniq self [] = Inr [PayloadLine l]
                   \<and> l = ''* *:rmdir:^ ^'' @ [CHR 0x27]
                            @ esc (writeDir self @ uniq (uniqueStrs self))
                            @ [CHR 0x27] @ ''END0* *''
                   \<and> l = rmdirLine (esc (writeDir self @ uniq (uniqueStrs self))) @ ''* *''
                   \<and> (\<forall>d w i. l \<noteq> mkdirLine d \<and> l \<noteq> printLine d w i \<and> l \<noteq> catLine d w
                                \<and> l \<noteq> rmLine d w \<and> l \<noteq> rmdirLine d)))"
proof -
  have sd: "startingDir (setSizes esc uniq self []) = Some (esc (writeDir self @ uniq (uniqueStrs self)))"
    by (simp add: setSizes_def Let_def)
  have ch: "cmdChunks (sectionSize (setSizes esc uniq self [])) [] = Inr []"
    using assms by (auto simp add: setSizes_def cmdChunks_def py_range_def Let_def)
  have lit: "rmdirLine a @ ''* *'' = ''* *:rmdir:^ ^'' @ [CHR 0x27] @ a @ [CHR 0x27] @ ''END0* *''" for a
    by (simp add: rmdirLine_def)
  have run: "FolderGlob_mutate esc uniq self [] =
           Inr (mangler self @
                [PayloadLine (rmdirLine (esc (writeDir self @ uniq (uniqueStrs self))) @ ''* *'')])"
    using assms
    by (auto simp add: FolderGlob_mutate_def setSizes_def cmdChunks_def py_range_def
        addPayloadLine_def Let_def)
  have other: "rmdirLine a @ ''* *'' \<noteq> mkdirLine d \<and> rmdirLine a @ ''* *'' \<noteq> printLine d w i
      \<and> rmdirLine a @ ''* *'' \<noteq> catLine d w \<and> rmdirLine a @ ''* *'' \<noteq> rmLine d w" for a d w i
    by (simp add: rmdirLine_def mkdirLine_def printLine_def catLine_def rmLine_def)
  have last_differs: "rmdirLine a @ ''* *'' \<noteq> rmdirLine d" for a d
  proof
    assume "rmdirLine a @ ''* *'' = rmdirLine d"
    then have "last (rmdirLine a @ ''* *'') = last (rmdirLine d)" by simp
    then show False by (simp add: rmdirLine_def)
  qed
  have run': "FolderGlob_mutate esc uniq self [] =
             Inr (mangler self @
                  [PayloadLine (''* *:rmdir:^ ^'' @ [CHR 0x27]
                                 @ esc (writeDir self @ uniq (uniqueStrs self))
                                 @ [CHR 0x27] @ ''END0* *'')])"
    using run by (simp only: lit)
  have fresh: "mangler self = [] \<longrightarrow>
              (\<exists>l. FolderGlob_mutate esc uniq self [] = Inr [PayloadLine l]
                   \<and> l = ''* *:rmdir:^ ^'' @ [CHR 0x27]
                            @ esc (writeDir self @ uniq (uniqueStrs self))
                            @ [CHR 0x27] @ ''END0* *''
                   \<and> l = rmdirLine (esc (writeDir self @ uniq (uniqueStrs self))) @ ''* *''
                   \<and> (\<forall>d w i. l \<noteq> mkdirLine d \<and> l \<noteq> printLine d w i \<and> l \<noteq> catLine d w
                                \<and> l \<noteq> rmLine d w \<and> l \<noteq> rmdirLine d))"
  proof
    assume m: "mangler self = []"
    let ?l = "rmdirLine (esc (writeDir self @ uniq (uniqueStrs self))) @ ''* *''"
    have 1: "FolderGlob_mutate esc uniq self [] = Inr [PayloadLine ?l]" using run m by simp
    have 2: "?l = ''* *:rmdir:^ ^'' @ [CHR 0x27]
                            @ esc (writeDir self @ uniq (uniqueStrs self))
                            @ [CHR 0x27] @ ''END0* *''" by (rule lit)
    have 3: "\<forall>d w i. ?l \<noteq> mkdirLine d \<and> ?l \<noteq> printLine d w i \<and> ?l \<noteq> catLine d w
                                \<and> ?l \<noteq> rmLine d w \<and> ?l \<noteq> rmdirLine d"
      using other last_differs by blast
    show "\<exists>l. FolderGlob_mutate esc uniq self [] = Inr [PayloadLine l]
                   \<and> l = ''* *:rmdir:^ ^'' @ [CHR 0x27]
                            @ esc (writeDir self @ uniq (uniqueStrs self))
                            @ [CHR 0x27] @ ''END0* *''
                   \<and> l = rmdirLine (esc (writeDir self @ uniq (uniqueStrs self))) @ ''* *''
                   \<and> (\<forall>d w i. l \<noteq> mkdirLine d \<and> l \<noteq> printLine d w i \<and> l \<noteq> catLine d w
                                \<and> l \<noteq> rmLine d w \<and> l \<noteq> rmdirLine d)"
      using 1 2 3 by (intro exI [of _ ?l] conjI) simp_all
  qed
  show ?thesis by (intro conjI sd ch run' fresh)
qed

theorem FolderGlob_mutate_empty_witness:
  "sizePref (init_glob 1 ''/tmp/'') \<in> {1, 2, 3}
   \<and> startingDir (setSizes id (\<lambda>k. ''u'') (init_glob 1 ''/tmp/'') []) = Some ''/tmp/u''
   \<and> FolderGlob_mutate id (\<lambda>k. ''u'') (init_glob 1 ''/tmp/'') [] =
       Inr [PayloadLine (''* *:rmdir:^ ^'' @ [CHR 0x27] @ ''/tmp/u'' @ [CHR 0x27] @ ''END0* *'')]"
  using FolderGlob_mutate_empty [of "init_glob 1 ''/tmp/''" id "\<lambda>k. ''u''"]
  by (simp add: init_glob_def)

section \<open>Chunks and index width\<close>

lemma div_round_up:
  assumes "0 < (k::nat)"
  shows "(n + k - 1) div k = n div k + (if n mod k = 0 then 0 else 1)"
proof -
  define q where "q = n div k"
  define r where "r = n mod k"
  have n: "n = q * k + r" unfolding q_def r_def by (rule div_mult_mod_eq [symmetric])
  have r: "r < k" unfolding r_def using assms by (rule mod_less_divisor)
  show ?thesis
  proof (cases "r = 0")
    case True
    have e: "n + k - 1 = q * k + (k - 1)" using n True assms by simp
    have "(q * k + (k - 1)) div k = q + (k - 1) div k"
      using assms by (intro div_mult_self3) simp
    moreover have "(k - 1) div k = 0" using assms by simp
    ultimately have "(q * k + (k - 1)) div k = q" by (simp only: add_0_right)
    then have "(n + k - 1) div k = q" by (simp only: e)
    then show ?thesis using True by (simp add: q_def r_def)
  next
    case False
    have e: "n + k - 1 = (q + 1) * k + (r - 1)" using n False by simp
    have "((q + 1) * k + (r - 1)) div k = (q + 1) + (r - 1) div k"
      using assms by (intro div_mult_self3) simp
    moreover have "(r - 1) div k = 0" using r by simp
    ultimately have "((q + 1) * k + (r - 1)) div k = q + 1" by (simp only: add_0_right)
    then have "(n + k - 1) div k = q + 1" by (simp only: e)
    then show ?thesis using False by (simp add: q_def r_def)
  qed
qed

lemma length_multiples:
  assumes "0 < k"
  shows "length (filter (\<lambda>i. i mod k = 0) [0..<n]) = (n + k - 1) div k"
proof (induction n)
  case 0
  then show ?case using assms by simp
next
  case (Suc n)
  have "(Suc n + k - 1) div k = (n + k) div k" by simp
  also have "\<dots> = n div k + 1" using assms by simp
  finally have "(Suc n + k - 1) div k = (n + k - 1) div k + (if n mod k = 0 then 1 else 0)"
    using div_round_up [OF assms, of n] by simp
  then show ?case using Suc by simp
qed

lemma ceiling_div_nat:
  assumes "0 < k"
  shows "\<lceil>real n / real k\<rceil> = int ((n + k - 1) div k)"
proof -
  define q where "q = n div k"
  define r where "r = n mod k"
  have n: "n = q * k + r" unfolding q_def r_def by (rule div_mult_mod_eq [symmetric])
  have "real n / real k = real q + real r / real k"
    using assms by (simp add: n field_simps)
  then have x: "real n / real k = real (n div k) + real (n mod k) / real k"
    by (simp only: q_def r_def)
  show ?thesis
  proof (cases "n mod k = 0")
    case True
    then have "\<lceil>real n / real k\<rceil> = int (n div k)" using x by simp
    then show ?thesis using True div_round_up [OF assms, of n] by simp
  next
    case False
    have "\<lceil>real n / real k\<rceil> = int (n div k) + 1"
    proof (rule ceiling_unique)
      have "0 < real (n mod k) / real k" using False assms by simp
      then show "of_int (int (n div k) + 1) - 1 < real n / real k" using x by simp
      have "real (n mod k) / real k \<le> 1" using assms by simp
      then show "real n / real k \<le> of_int (int (n div k) + 1)" using x by simp
    qed
    then show ?thesis using False div_round_up [OF assms, of n] by simp
  qed
qed

lemma cmdLogLen_pos:
  assumes "0 < n"
  shows "\<exists>w. cmdLogLen n = Inr w \<and> int w = max 1 \<lceil>log 2 (real n)\<rceil>"
proof -
  have "0 \<le> log 2 (real n)" using assms by simp
  then have "0 \<le> \<lceil>log 2 (real n)\<rceil>" by linarith
  then show ?thesis using assms by (auto simp: cmdLogLen_def ceillog2_def Let_def max_def)
qed


lemma cmdChunks_length:
  assumes "0 < k"
  shows "\<exists>cmdChars. cmdChunks (Some k) userCmd = Inr cmdChars
           \<and> int (length cmdChars) = \<lceil>real (length userCmd) / real k\<rceil>"
  using assms
  by (simp add: cmdChunks_def py_range_def length_multiples ceiling_div_nat)

lemma cmdChunks_nonempty:
  assumes "0 < k" and "userCmd \<noteq> []" and "cmdChunks (Some k) userCmd = Inr cmdChars"
  shows "0 < length cmdChars"
proof -
  have "0 \<in> set (filter (\<lambda>i. i mod k = 0) [0..<length userCmd])"
    using assms by simp
  then have "filter (\<lambda>i. i mod k = 0) [0..<length userCmd] \<noteq> []"
    by (metis empty_iff list.set(1))
  then show ?thesis using assms by (auto simp: cmdChunks_def py_range_def)
qed

lemma cmdChunks_single:
  assumes "chunk \<noteq> []" and "length chunk \<le> k"
  shows "cmdChunks (Some k) chunk = Inr [chunk]"
proof -
  have k: "0 < k" using assms by (cases k) auto
  have l: "0 < length chunk" using assms(1) by simp
  have u: "[0..<length chunk] = 0 # [Suc 0..<length chunk]" using l by (simp add: upt_conv_Cons)
  have "filter (\<lambda>i. i mod k = 0) [Suc 0..<length chunk] = []"
    using assms(2) by (auto simp: filter_empty_conv)
  then have "filter (\<lambda>i. i mod k = 0) [0..<length chunk] = [0]"
    unfolding u by simp
  then show ?thesis using k assms(2) by (simp add: cmdChunks_def py_range_def)
qed

lemma printLines_single: "printLines esc wd w [chunk] = [(printLine wd w 0, esc chunk)]"
  by (simp add: printLines_def)

lemma cmdLogLen_1: "cmdLogLen (Suc 0) = Inr (Suc 0)"
  by (simp add: cmdLogLen_def)

lemma generate_single:
  assumes "sectionSize self = Some k" and "startingDir self = Some sd"
    and "chunk \<noteq> []" and "length chunk \<le> k"
  shows "generate esc self chunk (Some d) =
           Inr (self\<lparr>workingDir := Some (if d = [] then sd else sd @ ''/'' @ esc d),
                     mangler := mangler self @
                       [PayloadLine (mkdirLine (if d = [] then sd else sd @ ''/'' @ esc d)),
                        LinesInRandomOrder
                          [(printLine (if d = [] then sd else sd @ ''/'' @ esc d) 1 0, esc chunk)],
                        PayloadLine (catLine (if d = [] then sd else sd @ ''/'' @ esc d) 1),
                        PayloadLine (rmLine (if d = [] then sd else sd @ ''/'' @ esc d) 1)]\<rparr>)"
  using assms cmdChunks_single [OF assms(3,4)]
  by (simp add: generate_def cmdLogLen_1 printLines_single addPayloadLine_def
      addLinesInRandomOrder_def Let_def)

lemma FolderGlob_loop_lines:
  assumes "sectionSize self = Some k" and "startingDir self = Some sd"
    and "\<forall>chunk \<in> set chunks. chunk \<noteq> [] \<and> length chunk \<le> k"
  shows "\<exists>self'. FolderGlob_loop esc uniq self chunks = Inr self'
           \<and> startingDir self' = Some sd
           \<and> mangler self' = mangler self @
               concat (map (\<lambda>(u, chunk).
                         [PayloadLine (mkdirLine (if uniq u = [] then sd else sd @ ''/'' @ esc (uniq u))),
                          LinesInRandomOrder
                            [(printLine (if uniq u = [] then sd else sd @ ''/'' @ esc (uniq u)) 1 0,
                              esc chunk)],
                          PayloadLine (catLine (if uniq u = [] then sd else sd @ ''/'' @ esc (uniq u)) 1),
                          PayloadLine (rmLine (if uniq u = [] then sd else sd @ ''/'' @ esc (uniq u)) 1),
                          PayloadLine (rmdirLine (if uniq u = [] then sd else sd @ ''/'' @ esc (uniq u)))])
                       (zip [uniqueStrs self..<uniqueStrs self + length chunks] chunks))"
  using assms
proof (induction chunks arbitrary: self)
  case Nil
  then show ?case by simp
next
  case (Cons chunk rest)
  let ?u = "uniqueStrs self"
  let ?wd = "if uniq ?u = [] then sd else sd @ ''/'' @ esc (uniq ?u)"
  let ?self1 = "self\<lparr>uniqueStrs := Suc ?u\<rparr>"
  let ?lines = "[PayloadLine (mkdirLine ?wd),
                 LinesInRandomOrder [(printLine ?wd 1 0, esc chunk)],
                 PayloadLine (catLine ?wd 1),
                 PayloadLine (rmLine ?wd 1)]"
  let ?self2 = "?self1\<lparr>workingDir := Some ?wd, mangler := mangler ?self1 @ ?lines\<rparr>"
  let ?self3 = "?self2\<lparr>mangler := addPayloadLine (rmdirLine (the (workingDir ?self2))) (mangler ?self2)\<rparr>"
  have c: "chunk \<noteq> []" "length chunk \<le> k" using Cons.prems(3) by simp_all
  have s1: "sectionSize ?self1 = Some k" "startingDir ?self1 = Some sd"
    using Cons.prems(1,2) by simp_all
  have g: "generate esc ?self1 chunk (Some (uniq ?u)) = Inr ?self2"
    using generate_single [OF s1 c, of esc "uniq ?u"] by simp
  have step: "FolderGlob_loop esc uniq self (chunk # rest) = FolderGlob_loop esc uniq ?self3 rest"
    using g by (simp add: Let_def)
  have s3: "sectionSize ?self3 = Some k" "startingDir ?self3 = Some sd"
    using Cons.prems(1,2) by simp_all
  have r: "\<forall>chunk \<in> set rest. chunk \<noteq> [] \<and> length chunk \<le> k" using Cons.prems(3) by simp
  from Cons.IH [OF s3 r] obtain self' where
    run: "FolderGlob_loop esc uniq ?self3 rest = Inr self'"
    and sd: "startingDir self' = Some sd"
    and m: "mangler self' = mangler ?self3 @
               concat (map (\<lambda>(u, chunk).
                         [PayloadLine (mkdirLine (if uniq u = [] then sd else sd @ ''/'' @ esc (uniq u))),
                          LinesInRandomOrder
                            [(printLine (if uniq u = [] then sd else sd @ ''/'' @ esc (uniq u)) 1 0,
                              esc chunk)],
                          PayloadLine (catLine (if uniq u = [] then sd else sd @ ''/'' @ esc (uniq u)) 1),
                          PayloadLine (rmLine (if uniq u = [] then sd else sd @ ''/'' @ esc (uniq u)) 1),
                          PayloadLine (rmdirLine (if uniq u = [] then sd else sd @ ''/'' @ esc (uniq u)))])
                       (zip [uniqueStrs ?self3..<uniqueStrs ?self3 + length rest] rest))"
    by blast
  have u3: "uniqueStrs ?self3 = Suc ?u" by simp
  have z: "zip [?u..<?u + length (chunk # rest)] (chunk # rest)
             = (?u, chunk) # zip [Suc ?u..<Suc ?u + length rest] rest"
    by (simp add: upt_conv_Cons del: upt_Suc)
  have m3: "mangler ?self3 = mangler self @ ?lines @ [PayloadLine (rmdirLine ?wd)]"
    by (simp add: addPayloadLine_def)
  show ?case
    unfolding step run z
    using sd m by (simp only: u3 m3) simp
qed

lemma cmdChunks_parts:
  assumes "0 < k" and "cmdChunks (Some k) userCmd = Inr cmdChars"
  shows "\<forall>chunk \<in> set cmdChars. chunk \<noteq> [] \<and> length chunk \<le> k"
proof -
  have c: "cmdChars = map (\<lambda>i. take k (drop i userCmd)) (filter (\<lambda>i. i mod k = 0) [0..<length userCmd])"
    using assms by (simp add: cmdChunks_def py_range_def)
  show ?thesis using assms(1) unfolding c by auto
qed

lemma multiples_step:
  assumes "0 < k" and "0 < n"
  shows "filter (\<lambda>i. i mod k = 0) [0..<n]
           = 0 # map (\<lambda>i. i + k) (filter (\<lambda>i. i mod k = 0) [0..<n - k])"
proof (cases "k \<le> n")
  case True
  have s: "[0..<n] = [0..<k] @ [k..<n]" using True by (metis le0 upt_add_eq_append le_add_diff_inverse)
  have u: "[0..<k] = 0 # [Suc 0..<k]" using assms(1) by (simp add: upt_conv_Cons)
  have "filter (\<lambda>i. i mod k = 0) [Suc 0..<k] = []" by (auto simp: filter_empty_conv)
  then have a: "filter (\<lambda>i. i mod k = 0) [0..<k] = [0]" unfolding u by simp
  have "[k..<n] = map (\<lambda>i. i + k) [0..<n - k]"
    using True map_add_upt [of k "n - k"] by simp
  then have b: "filter (\<lambda>i. i mod k = 0) [k..<n]
                  = map (\<lambda>i. i + k) (filter (\<lambda>i. i mod k = 0) [0..<n - k])"
    by (simp add: filter_map comp_def)
  show ?thesis unfolding s using a b by simp
next
  case False
  then have nk: "n - k = 0" by simp
  have u: "[0..<n] = 0 # [Suc 0..<n]" using assms(2) by (simp add: upt_conv_Cons)
  have "filter (\<lambda>i. i mod k = 0) [Suc 0..<n] = []" using False by (auto simp: filter_empty_conv)
  then show ?thesis unfolding u nk by simp
qed

lemma cmdChunks_step:
  assumes "0 < k" and "userCmd \<noteq> []"
  shows "cmdChunks (Some k) userCmd
           = Inr (take k userCmd # projr (cmdChunks (Some k) (drop k userCmd)))"
  using assms multiples_step [OF assms(1), of "length userCmd"]
  by (simp add: cmdChunks_def py_range_def add.commute)

lemma cmdChunks_concat:
  assumes "0 < k" and "cmdChunks (Some k) userCmd = Inr cmdChars"
  shows "concat cmdChars = userCmd"
  using assms(2)
proof (induction "length userCmd" arbitrary: userCmd cmdChars rule: less_induct)
  case less
  show ?case
  proof (cases "userCmd = []")
    case True
    then show ?thesis using less.prems assms(1) by (simp add: cmdChunks_def py_range_def)
  next
    case False
    have r: "cmdChunks (Some k) (drop k userCmd) = Inr (projr (cmdChunks (Some k) (drop k userCmd)))"
      using assms(1) by (simp add: cmdChunks_def py_range_def)
    have "length (drop k userCmd) < length userCmd" using assms(1) False by simp
    from less.hyps [OF this r]
    have "concat (projr (cmdChunks (Some k) (drop k userCmd))) = drop k userCmd" .
    moreover have "cmdChars = take k userCmd # projr (cmdChunks (Some k) (drop k userCmd))"
      using cmdChunks_step [OF assms(1) False] less.prems by simp
    ultimately show ?thesis by simp
  qed
qed

lemma generate_run:
  assumes "userCmd \<noteq> []" and "sectionSize self = Some k" and "0 < k"
    and "startingDir self = Some sd"
  shows "\<exists>cmdChars w wd.
           cmdChunks (sectionSize self) userCmd = Inr cmdChars
         \<and> int (length cmdChars) = \<lceil>real (length userCmd) / real k\<rceil>
         \<and> cmdLogLen (length cmdChars) = Inr w
         \<and> int w = max 1 \<lceil>log 2 (real (length cmdChars))\<rceil>
         \<and> wd = (case writeableDir of
                   None \<Rightarrow> sd
                 | Some d \<Rightarrow> if d = [] then sd else sd @ ''/'' @ esc d)
         \<and> generate esc self userCmd writeableDir =
             Inr (self\<lparr>workingDir := Some wd,
                       mangler := mangler self @
                         [PayloadLine (mkdirLine wd),
                          LinesInRandomOrder (printLines esc wd w cmdChars),
                          PayloadLine (catLine wd w),
                          PayloadLine (rmLine wd w)]\<rparr>)"
proof -
  define wd where "wd = (case writeableDir of
                   None \<Rightarrow> sd
                 | Some d \<Rightarrow> if d = [] then sd else sd @ ''/'' @ esc d)"
  obtain cmdChars where c: "cmdChunks (Some k) userCmd = Inr cmdChars"
    and n: "int (length cmdChars) = \<lceil>real (length userCmd) / real k\<rceil>"
    using cmdChunks_length [OF assms(3)] by blast
  have "0 < length cmdChars" using cmdChunks_nonempty [OF assms(3) assms(1) c] .
  then obtain w where w: "cmdLogLen (length cmdChars) = Inr w"
    and l: "int w = max 1 \<lceil>log 2 (real (length cmdChars))\<rceil>"
    using cmdLogLen_pos by blast
  have g: "generate esc self userCmd writeableDir =
             Inr (self\<lparr>workingDir := Some wd,
                       mangler := mangler self @
                         [PayloadLine (mkdirLine wd),
                          LinesInRandomOrder (printLines esc wd w cmdChars),
                          PayloadLine (catLine wd w),
                          PayloadLine (rmLine wd w)]\<rparr>)"
    using assms(2,4) c w
    by (simp add: generate_def addPayloadLine_def addLinesInRandomOrder_def wd_def Let_def)
  have c': "cmdChunks (sectionSize self) userCmd = Inr cmdChars"
    using c by (simp only: assms(2))
  show ?thesis
    by (intro exI [of _ cmdChars] exI [of _ w] exI [of _ wd] conjI c' n w l wd_def g)
qed

lemma setSizes_fields:
  assumes "sizePref self = 1 \<or> sizePref self = 2 \<or> sizePref self = 3"
  shows "\<exists>k. sectionSize (setSizes esc uniq self userCmd) = Some k \<and> 0 < k
           \<and> k = (if sizePref self = 1 then length userCmd div 10 + 1
                   else if sizePref self = 2 then length userCmd div 100 + 1 else 1)"
    and "startingDir (setSizes esc uniq self userCmd) = Some (esc (writeDir self @ uniq (uniqueStrs self)))"
    and "mangler (setSizes esc uniq self userCmd) = mangler self"
    and "uniqueStrs (setSizes esc uniq self userCmd) = Suc (uniqueStrs self)"
  using assms by (auto simp: setSizes_def Let_def)

lemma FileGlob_mutate_run:
  assumes "userCmd \<noteq> []" and "sizePref self = 1 \<or> sizePref self = 2 \<or> sizePref self = 3"
  shows "\<exists>k cmdChars w sd.
           sectionSize (setSizes esc uniq self userCmd) = Some k \<and> 0 < k
         \<and> k = (if sizePref self = 1 then length userCmd div 10 + 1
                 else if sizePref self = 2 then length userCmd div 100 + 1 else 1)
         \<and> sd = esc (writeDir self @ uniq (uniqueStrs self))
         \<and> cmdChunks (Some k) userCmd = Inr cmdChars
         \<and> int (length cmdChars) = \<lceil>real (length userCmd) / real k\<rceil>
         \<and> cmdLogLen (length cmdChars) = Inr w
         \<and> int w = max 1 \<lceil>log 2 (real (length cmdChars))\<rceil>
         \<and> FileGlob_mutate esc uniq self userCmd =
             Inr (mangler self @
                  [PayloadLine (mkdirLine sd),
                   LinesInRandomOrder (printLines esc sd w cmdChars),
                   PayloadLine (catLine sd w),
                   PayloadLine (rmLine sd w),
                   PayloadLine (rmdirLine sd @ ''* *'')])"
proof -
  let ?self = "setSizes esc uniq self userCmd"
  let ?sd = "esc (writeDir self @ uniq (uniqueStrs self))"
  from setSizes_fields(1) [OF assms(2), of esc uniq userCmd] obtain k where
    k: "sectionSize ?self = Some k" and k0: "0 < k"
    and kv: "k = (if sizePref self = 1 then length userCmd div 10 + 1
                 else if sizePref self = 2 then length userCmd div 100 + 1 else 1)" by blast
  have sd: "startingDir ?self = Some ?sd" by (rule setSizes_fields(2) [OF assms(2)])
  have m: "mangler ?self = mangler self" by (rule setSizes_fields(3) [OF assms(2)])
  from generate_run [OF assms(1) k k0 sd, where writeableDir = None and esc = esc] obtain cmdChars w where
    c: "cmdChunks (sectionSize ?self) userCmd = Inr cmdChars"
    and n: "int (length cmdChars) = \<lceil>real (length userCmd) / real k\<rceil>"
    and w: "cmdLogLen (length cmdChars) = Inr w"
    and l: "int w = max 1 \<lceil>log 2 (real (length cmdChars))\<rceil>"
    and g: "generate esc ?self userCmd None =
             Inr (?self\<lparr>workingDir := Some ?sd,
                       mangler := mangler ?self @
                         [PayloadLine (mkdirLine ?sd),
                          LinesInRandomOrder (printLines esc ?sd w cmdChars),
                          PayloadLine (catLine ?sd w),
                          PayloadLine (rmLine ?sd w)]\<rparr>)"
    by auto
  have c': "cmdChunks (Some k) userCmd = Inr cmdChars" using c by (simp only: k)
  have run: "FileGlob_mutate esc uniq self userCmd =
             Inr (mangler self @
                  [PayloadLine (mkdirLine ?sd),
                   LinesInRandomOrder (printLines esc ?sd w cmdChars),
                   PayloadLine (catLine ?sd w),
                   PayloadLine (rmLine ?sd w),
                   PayloadLine (rmdirLine ?sd @ ''* *'')])"
    unfolding FileGlob_mutate_def Let_def g by (simp add: m addPayloadLine_def)
  show ?thesis
    using k k0 kv c' n w l run
    by (intro exI [of _ k] exI [of _ cmdChars] exI [of _ w] exI [of _ ?sd] conjI) simp_all
qed

lemma FolderGlob_mutate_run:
  assumes "sizePref self = 1 \<or> sizePref self = 2 \<or> sizePref self = 3"
  shows "\<exists>k cmdChars sd.
           sectionSize (setSizes esc uniq self userCmd) = Some k \<and> 0 < k
         \<and> k = (if sizePref self = 1 then length userCmd div 10 + 1
                 else if sizePref self = 2 then length userCmd div 100 + 1 else 1)
         \<and> sd = esc (writeDir self @ uniq (uniqueStrs self))
         \<and> cmdChunks (Some k) userCmd = Inr cmdChars
         \<and> int (length cmdChars) = \<lceil>real (length userCmd) / real k\<rceil>
         \<and> (\<forall>chunk \<in> set cmdChars. cmdChunks (Some k) chunk = Inr [chunk])
         \<and> FolderGlob_mutate esc uniq self userCmd =
             Inr (mangler self @
                  concat (map (\<lambda>(u, chunk).
                     [PayloadLine (mkdirLine (if uniq u = [] then sd else sd @ ''/'' @ esc (uniq u))),
                      LinesInRandomOrder
                        [(printLine (if uniq u = [] then sd else sd @ ''/'' @ esc (uniq u)) 1 0,
                          esc chunk)],
                      PayloadLine (catLine (if uniq u = [] then sd else sd @ ''/'' @ esc (uniq u)) 1),
                      PayloadLine (rmLine (if uniq u = [] then sd else sd @ ''/'' @ esc (uniq u)) 1),
                      PayloadLine (rmdirLine (if uniq u = [] then sd else sd @ ''/'' @ esc (uniq u)))])
                    (zip [Suc (uniqueStrs self)..<Suc (uniqueStrs self) + length cmdChars] cmdChars))
                  @ [PayloadLine (rmdirLine sd @ ''* *'')])"
proof -
  let ?self = "setSizes esc uniq self userCmd"
  let ?sd = "esc (writeDir self @ uniq (uniqueStrs self))"
  from setSizes_fields(1) [OF assms, of esc uniq userCmd] obtain k where
    k: "sectionSize ?self = Some k" and k0: "0 < k"
    and kv: "k = (if sizePref self = 1 then length userCmd div 10 + 1
                 else if sizePref self = 2 then length userCmd div 100 + 1 else 1)" by blast
  have sd: "startingDir ?self = Some ?sd" by (rule setSizes_fields(2) [OF assms])
  have m: "mangler ?self = mangler self" by (rule setSizes_fields(3) [OF assms])
  have u: "uniqueStrs ?self = Suc (uniqueStrs self)" by (rule setSizes_fields(4) [OF assms])
  obtain cmdChars where c: "cmdChunks (Some k) userCmd = Inr cmdChars"
    and n: "int (length cmdChars) = \<lceil>real (length userCmd) / real k\<rceil>"
    using cmdChunks_length [OF k0] by blast
  have parts: "\<forall>chunk \<in> set cmdChars. chunk \<noteq> [] \<and> length chunk \<le> k"
    using cmdChunks_parts [OF k0 c] .
  then have single: "\<forall>chunk \<in> set cmdChars. cmdChunks (Some k) chunk = Inr [chunk]"
    using cmdChunks_single by blast
  from FolderGlob_loop_lines [OF k sd parts, of esc uniq] obtain self' where
    run: "FolderGlob_loop esc uniq ?self cmdChars = Inr self'"
    and sd': "startingDir self' = Some ?sd"
    and m': "mangler self' = mangler ?self @
               concat (map (\<lambda>(u, chunk).
                         [PayloadLine (mkdirLine (if uniq u = [] then ?sd else ?sd @ ''/'' @ esc (uniq u))),
                          LinesInRandomOrder
                            [(printLine (if uniq u = [] then ?sd else ?sd @ ''/'' @ esc (uniq u)) 1 0,
                              esc chunk)],
                          PayloadLine (catLine (if uniq u = [] then ?sd else ?sd @ ''/'' @ esc (uniq u)) 1),
                          PayloadLine (rmLine (if uniq u = [] then ?sd else ?sd @ ''/'' @ esc (uniq u)) 1),
                          PayloadLine (rmdirLine (if uniq u = [] then ?sd else ?sd @ ''/'' @ esc (uniq u)))])
                       (zip [uniqueStrs ?self..<uniqueStrs ?self + length cmdChars] cmdChars))"
    by blast
  have c': "cmdChunks (sectionSize ?self) userCmd = Inr cmdChars" using c by (simp only: k)
  have res: "FolderGlob_mutate esc uniq self userCmd =
               Inr (mangler self' @ [PayloadLine (rmdirLine ?sd @ ''* *'')])"
    unfolding FolderGlob_mutate_def Let_def c' by (simp add: run sd' addPayloadLine_def)
  have final: "FolderGlob_mutate esc uniq self userCmd =
             Inr (mangler self @
                  concat (map (\<lambda>(u, chunk).
                     [PayloadLine (mkdirLine (if uniq u = [] then ?sd else ?sd @ ''/'' @ esc (uniq u))),
                      LinesInRandomOrder
                        [(printLine (if uniq u = [] then ?sd else ?sd @ ''/'' @ esc (uniq u)) 1 0,
                          esc chunk)],
                      PayloadLine (catLine (if uniq u = [] then ?sd else ?sd @ ''/'' @ esc (uniq u)) 1),
                      PayloadLine (rmLine (if uniq u = [] then ?sd else ?sd @ ''/'' @ esc (uniq u)) 1),
                      PayloadLine (rmdirLine (if uniq u = [] then ?sd else ?sd @ ''/'' @ esc (uniq u)))])
                    (zip [Suc (uniqueStrs self)..<Suc (uniqueStrs self) + length cmdChars] cmdChars))
                  @ [PayloadLine (rmdirLine ?sd @ ''* *'')])"
    unfolding res m' m u by simp
  show ?thesis
    using k k0 kv c n single final
    by (intro exI [of _ k] exI [of _ cmdChars] exI [of _ ?sd] conjI) simp_all
qed

text \<open>
  C6, as the code has it. On a nonempty command:

  \<^item> The split with a positive \<open>sectionSize\<close> \<open>k\<close> gives exactly \<open>\<lceil>len / k\<rceil>\<close> chunks, none
    empty and none longer than \<open>k\<close>, whose concatenation is the command.
  \<^item> \<open>generate\<close>, the staging that both glob encoders share, with or without a
    \<open>writeableDir\<close>, splits its argument in this way and, for fewer than \<open>2 ^ 29\<close> chunks,
    uses the index width \<open>max 1 \<lceil>log 2 (number of chunks)\<rceil>\<close>: the read line and the delete
    line end in that many \<open>?\<close> after the directory, and the lines handed to the mangler are
    the directory creation, the file writes, the read and the delete.
  \<^item> \<open>FileGlob.mutate\<close> calls \<open>generate\<close> once, on the whole command, in the starting
    directory, and adds the removal of that directory.
  \<^item> \<open>FolderGlob.mutate\<close> splits the command into \<open>\<lceil>len / sectionSize\<rceil>\<close> chunks and calls
    \<open>generate\<close> once for every chunk, with the same \<open>sectionSize\<close> and a directory of its own:
    every call has one chunk, and the read and delete lines have one \<open>?\<close>, whatever the
    number of chunks of the command. After every call comes the removal of the chunk's
    directory, and at the end the removal of the starting directory.
  \<^item> The text of every line is as given.
  \<^item> For the command \<open>id\<close> and size preference 3, \<open>FileGlob.mutate\<close> uses \<open>sectionSize\<close> 1,
    the two chunks \<open>i\<close> and \<open>d\<close>, index width 1 and the two different one-character file
    names \<open>?\<close> and newline.
\<close>

theorem glob_chunk_count_index_width:
  assumes "userCmd \<noteq> []"
  shows "(0 < k \<longrightarrow>
          (\<exists>cmdChars.
             cmdChunks (Some k) userCmd = Inr cmdChars
           \<and> int (length cmdChars) = \<lceil>real (length userCmd) / real k\<rceil>
           \<and> concat cmdChars = userCmd
           \<and> (\<forall>chunk \<in> set cmdChars. chunk \<noteq> [] \<and> length chunk \<le> k)))
       \<and> (sectionSize g = Some k \<and> 0 < k \<and> startingDir g = Some sd
            \<and> \<lceil>real (length userCmd) / real k\<rceil> < 2 ^ 29 \<longrightarrow>
          (\<exists>cmdChars w wd.
             cmdChunks (sectionSize g) userCmd = Inr cmdChars
           \<and> int (length cmdChars) = \<lceil>real (length userCmd) / real k\<rceil>
           \<and> cmdLogLen (length cmdChars) = Inr w
           \<and> int w = max 1 \<lceil>log 2 (real (length cmdChars))\<rceil>
           \<and> wd = (case writeableDir of
                     None \<Rightarrow> sd
                   | Some d \<Rightarrow> if d = [] then sd else sd @ ''/'' @ esc d)
           \<and> generate esc g userCmd writeableDir =
               Inr (g\<lparr>workingDir := Some wd,
                      mangler := mangler g @
                        [PayloadLine (mkdirLine wd),
                         LinesInRandomOrder (printLines esc wd w cmdChars),
                         PayloadLine (catLine wd w),
                         PayloadLine (rmLine wd w)]\<rparr>)))
       \<and> ((sizePref self = 1 \<or> sizePref self = 2 \<or> sizePref self = 3)
            \<and> length userCmd < 2 ^ 29 \<longrightarrow>
          (\<exists>k cmdChars w sd.
             sectionSize (setSizes esc uniq self userCmd) = Some k \<and> 0 < k
           \<and> k = (if sizePref self = 1 then length userCmd div 10 + 1
                   else if sizePref self = 2 then length userCmd div 100 + 1 else 1)
           \<and> sd = esc (writeDir self @ uniq (uniqueStrs self))
           \<and> cmdChunks (Some k) userCmd = Inr cmdChars
           \<and> int (length cmdChars) = \<lceil>real (length userCmd) / real k\<rceil>
           \<and> cmdLogLen (length cmdChars) = Inr w
           \<and> int w = max 1 \<lceil>log 2 (real (length cmdChars))\<rceil>
           \<and> FileGlob_mutate esc uniq self userCmd =
               Inr (mangler self @
                    [PayloadLine (mkdirLine sd),
                     LinesInRandomOrder (printLines esc sd w cmdChars),
                     PayloadLine (catLine sd w),
                     PayloadLine (rmLine sd w),
                     PayloadLine (rmdirLine sd @ ''* *'')])))
       \<and> (sizePref self = 1 \<or> sizePref self = 2 \<or> sizePref self = 3 \<longrightarrow>
          (\<exists>k cmdChars sd.
             sectionSize (setSizes esc uniq self userCmd) = Some k \<and> 0 < k
           \<and> k = (if sizePref self = 1 then length userCmd div 10 + 1
                   else if sizePref self = 2 then length userCmd div 100 + 1 else 1)
           \<and> sd = esc (writeDir self @ uniq (uniqueStrs self))
           \<and> cmdChunks (Some k) userCmd = Inr cmdChars
           \<and> int (length cmdChars) = \<lceil>real (length userCmd) / real k\<rceil>
           \<and> (\<forall>chunk \<in> set cmdChars. cmdChunks (Some k) chunk = Inr [chunk])
           \<and> FolderGlob_mutate esc uniq self userCmd =
               Inr (mangler self @
                    concat (map (\<lambda>(u, chunk).
                       [PayloadLine (mkdirLine (if uniq u = [] then sd else sd @ ''/'' @ esc (uniq u))),
                        LinesInRandomOrder
                          [(printLine (if uniq u = [] then sd else sd @ ''/'' @ esc (uniq u)) 1 0,
                            esc chunk)],
                        PayloadLine (catLine (if uniq u = [] then sd else sd @ ''/'' @ esc (uniq u)) 1),
                        PayloadLine (rmLine (if uniq u = [] then sd else sd @ ''/'' @ esc (uniq u)) 1),
                        PayloadLine (rmdirLine (if uniq u = [] then sd else sd @ ''/'' @ esc (uniq u)))])
                      (zip [Suc (uniqueStrs self)..<Suc (uniqueStrs self) + length cmdChars] cmdChars))
                    @ [PayloadLine (rmdirLine sd @ ''* *'')])))
       \<and> (\<forall>d w i.
             mkdirLine d = ''* *:mkdir:^ ^-p^ ^'' @ [CHR 0x27] @ d @ [CHR 0x27] @ ''* *END0''
           \<and> printLine d w i = ''* *:printf:^ ^%s^ ^'' @ [CHR 0x27] @ ''DATA'' @ [CHR 0x27]
                                 @ ''? ?>? ?'' @ [CHR 0x27] @ d @ ''/'' @ chunkName w i @ [CHR 0x27]
                                 @ ''* *END0''
           \<and> catLine d w = ''* *:cat:^ ^'' @ [CHR 0x27] @ d @ [CHR 0x27] @ ''/''
                             @ replicate w (CHR ''?'') @ ''* *END0''
           \<and> rmLine d w = ''* *:rm:^ ^'' @ [CHR 0x27] @ d @ [CHR 0x27] @ ''/''
                            @ replicate w (CHR ''?'') @ ''* *END0''
           \<and> rmdirLine d = ''* *:rmdir:^ ^'' @ [CHR 0x27] @ d @ [CHR 0x27] @ ''END0'')
       \<and> sectionSize (setSizes esc uniq (init_glob 3 wdir) ''id'') = Some 1
       \<and> cmdChunks (Some 1) ''id'' = Inr [''i'', ''d'']
       \<and> cmdLogLen 2 = Inr 1
       \<and> chunkName 1 0 = ''?'' \<and> chunkName 1 1 = [CHR 0x0A] \<and> chunkName 1 0 \<noteq> chunkName 1 1
       \<and> FileGlob_mutate esc uniq (init_glob 3 wdir) ''id'' =
            Inr [PayloadLine (mkdirLine (esc (wdir @ uniq 0))),
                 LinesInRandomOrder [(printLine (esc (wdir @ uniq 0)) 1 0, esc ''i''),
                                     (printLine (esc (wdir @ uniq 0)) 1 1, esc ''d'')],
                 PayloadLine (catLine (esc (wdir @ uniq 0)) 1),
                 PayloadLine (rmLine (esc (wdir @ uniq 0)) 1),
                 PayloadLine (rmdirLine (esc (wdir @ uniq 0)) @ ''* *'')]"
proof -
  have split: "0 < k \<longrightarrow>
          (\<exists>cmdChars.
             cmdChunks (Some k) userCmd = Inr cmdChars
           \<and> int (length cmdChars) = \<lceil>real (length userCmd) / real k\<rceil>
           \<and> concat cmdChars = userCmd
           \<and> (\<forall>chunk \<in> set cmdChars. chunk \<noteq> [] \<and> length chunk \<le> k))"
  proof
    assume k: "0 < k"
    from cmdChunks_length [OF k, of userCmd] obtain cmdChars where
      c: "cmdChunks (Some k) userCmd = Inr cmdChars"
      and n: "int (length cmdChars) = \<lceil>real (length userCmd) / real k\<rceil>" by blast
    show "\<exists>cmdChars.
             cmdChunks (Some k) userCmd = Inr cmdChars
           \<and> int (length cmdChars) = \<lceil>real (length userCmd) / real k\<rceil>
           \<and> concat cmdChars = userCmd
           \<and> (\<forall>chunk \<in> set cmdChars. chunk \<noteq> [] \<and> length chunk \<le> k)"
      using c n cmdChunks_concat [OF k c] cmdChunks_parts [OF k c]
      by (intro exI [of _ cmdChars] conjI)
  qed
  have staging: "sectionSize g = Some k \<and> 0 < k \<and> startingDir g = Some sd
            \<and> \<lceil>real (length userCmd) / real k\<rceil> < 2 ^ 29 \<longrightarrow>
          (\<exists>cmdChars w wd.
             cmdChunks (sectionSize g) userCmd = Inr cmdChars
           \<and> int (length cmdChars) = \<lceil>real (length userCmd) / real k\<rceil>
           \<and> cmdLogLen (length cmdChars) = Inr w
           \<and> int w = max 1 \<lceil>log 2 (real (length cmdChars))\<rceil>
           \<and> wd = (case writeableDir of
                     None \<Rightarrow> sd
                   | Some d \<Rightarrow> if d = [] then sd else sd @ ''/'' @ esc d)
           \<and> generate esc g userCmd writeableDir =
               Inr (g\<lparr>workingDir := Some wd,
                      mangler := mangler g @
                        [PayloadLine (mkdirLine wd),
                         LinesInRandomOrder (printLines esc wd w cmdChars),
                         PayloadLine (catLine wd w),
                         PayloadLine (rmLine wd w)]\<rparr>))"
  proof
    assume h: "sectionSize g = Some k \<and> 0 < k \<and> startingDir g = Some sd
            \<and> \<lceil>real (length userCmd) / real k\<rceil> < 2 ^ 29"
    then have 1: "sectionSize g = Some k" and 2: "0 < k" and 3: "startingDir g = Some sd"
      by simp_all
    show "\<exists>cmdChars w wd.
             cmdChunks (sectionSize g) userCmd = Inr cmdChars
           \<and> int (length cmdChars) = \<lceil>real (length userCmd) / real k\<rceil>
           \<and> cmdLogLen (length cmdChars) = Inr w
           \<and> int w = max 1 \<lceil>log 2 (real (length cmdChars))\<rceil>
           \<and> wd = (case writeableDir of
                     None \<Rightarrow> sd
                   | Some d \<Rightarrow> if d = [] then sd else sd @ ''/'' @ esc d)
           \<and> generate esc g userCmd writeableDir =
               Inr (g\<lparr>workingDir := Some wd,
                      mangler := mangler g @
                        [PayloadLine (mkdirLine wd),
                         LinesInRandomOrder (printLines esc wd w cmdChars),
                         PayloadLine (catLine wd w),
                         PayloadLine (rmLine wd w)]\<rparr>)"
      by (rule generate_run [OF assms 1 2 3])
  qed
  have flat: "(sizePref self = 1 \<or> sizePref self = 2 \<or> sizePref self = 3)
            \<and> length userCmd < 2 ^ 29 \<longrightarrow>
          (\<exists>k cmdChars w sd.
             sectionSize (setSizes esc uniq self userCmd) = Some k \<and> 0 < k
           \<and> k = (if sizePref self = 1 then length userCmd div 10 + 1
                   else if sizePref self = 2 then length userCmd div 100 + 1 else 1)
           \<and> sd = esc (writeDir self @ uniq (uniqueStrs self))
           \<and> cmdChunks (Some k) userCmd = Inr cmdChars
           \<and> int (length cmdChars) = \<lceil>real (length userCmd) / real k\<rceil>
           \<and> cmdLogLen (length cmdChars) = Inr w
           \<and> int w = max 1 \<lceil>log 2 (real (length cmdChars))\<rceil>
           \<and> FileGlob_mutate esc uniq self userCmd =
               Inr (mangler self @
                    [PayloadLine (mkdirLine sd),
                     LinesInRandomOrder (printLines esc sd w cmdChars),
                     PayloadLine (catLine sd w),
                     PayloadLine (rmLine sd w),
                     PayloadLine (rmdirLine sd @ ''* *'')]))"
    using FileGlob_mutate_run [OF assms, of self esc uniq] by blast
  have folder: "sizePref self = 1 \<or> sizePref self = 2 \<or> sizePref self = 3 \<longrightarrow>
          (\<exists>k cmdChars sd.
             sectionSize (setSizes esc uniq self userCmd) = Some k \<and> 0 < k
           \<and> k = (if sizePref self = 1 then length userCmd div 10 + 1
                   else if sizePref self = 2 then length userCmd div 100 + 1 else 1)
           \<and> sd = esc (writeDir self @ uniq (uniqueStrs self))
           \<and> cmdChunks (Some k) userCmd = Inr cmdChars
           \<and> int (length cmdChars) = \<lceil>real (length userCmd) / real k\<rceil>
           \<and> (\<forall>chunk \<in> set cmdChars. cmdChunks (Some k) chunk = Inr [chunk])
           \<and> FolderGlob_mutate esc uniq self userCmd =
               Inr (mangler self @
                    concat (map (\<lambda>(u, chunk).
                       [PayloadLine (mkdirLine (if uniq u = [] then sd else sd @ ''/'' @ esc (uniq u))),
                        LinesInRandomOrder
                          [(printLine (if uniq u = [] then sd else sd @ ''/'' @ esc (uniq u)) 1 0,
                            esc chunk)],
                        PayloadLine (catLine (if uniq u = [] then sd else sd @ ''/'' @ esc (uniq u)) 1),
                        PayloadLine (rmLine (if uniq u = [] then sd else sd @ ''/'' @ esc (uniq u)) 1),
                        PayloadLine (rmdirLine (if uniq u = [] then sd else sd @ ''/'' @ esc (uniq u)))])
                      (zip [Suc (uniqueStrs self)..<Suc (uniqueStrs self) + length cmdChars] cmdChars))
                    @ [PayloadLine (rmdirLine sd @ ''* *'')]))"
    using FolderGlob_mutate_run [of self esc uniq userCmd] by blast
  have lits: "\<forall>d w i.
             mkdirLine d = ''* *:mkdir:^ ^-p^ ^'' @ [CHR 0x27] @ d @ [CHR 0x27] @ ''* *END0''
           \<and> printLine d w i = ''* *:printf:^ ^%s^ ^'' @ [CHR 0x27] @ ''DATA'' @ [CHR 0x27]
                                 @ ''? ?>? ?'' @ [CHR 0x27] @ d @ ''/'' @ chunkName w i @ [CHR 0x27]
                                 @ ''* *END0''
           \<and> catLine d w = ''* *:cat:^ ^'' @ [CHR 0x27] @ d @ [CHR 0x27] @ ''/''
                             @ replicate w (CHR ''?'') @ ''* *END0''
           \<and> rmLine d w = ''* *:rm:^ ^'' @ [CHR 0x27] @ d @ [CHR 0x27] @ ''/''
                            @ replicate w (CHR ''?'') @ ''* *END0''
           \<and> rmdirLine d = ''* *:rmdir:^ ^'' @ [CHR 0x27] @ d @ [CHR 0x27] @ ''END0''"
    by (simp add: mkdirLine_def printLine_def catLine_def rmLine_def rmdirLine_def)
  have sizes: "sectionSize (setSizes esc uniq (init_glob 3 wdir) ''id'') = Some 1"
    by (simp add: setSizes_def init_glob_def)
  have chunks: "cmdChunks (Some 1) ''id'' = Inr [''i'', ''d'']"
    by (simp add: cmdChunks_def py_range_def upt_conv_Cons)
  have width: "cmdLogLen 2 = Inr 1"
    by (simp add: cmdLogLen_def)
  have width': "cmdLogLen (Suc (Suc 0)) = Inr (Suc 0)"
    using width by (simp add: numeral_2_eq_2 [symmetric])
  have names: "chunkName 1 0 = ''?'' \<and> chunkName 1 1 = [CHR 0x0A]"
    by (simp add: chunkName_def format_0b_def replace_char_def bin_str.simps)
  have differ: "chunkName 1 0 \<noteq> chunkName 1 1" using names by simp
  have lines: "printLines esc d 1 [''i'', ''d''] =
                 [(printLine d 1 0, esc ''i''), (printLine d 1 1, esc ''d'')]" for d
    using names by (simp add: printLines_def printLine_def upt_conv_Cons)
  have run: "FileGlob_mutate esc uniq (init_glob 3 wdir) ''id'' =
            Inr [PayloadLine (mkdirLine (esc (wdir @ uniq 0))),
                 LinesInRandomOrder [(printLine (esc (wdir @ uniq 0)) 1 0, esc ''i''),
                                     (printLine (esc (wdir @ uniq 0)) 1 1, esc ''d'')],
                 PayloadLine (catLine (esc (wdir @ uniq 0)) 1),
                 PayloadLine (rmLine (esc (wdir @ uniq 0)) 1),
                 PayloadLine (rmdirLine (esc (wdir @ uniq 0)) @ ''* *'')]"
    using chunks width' lines
    by (simp add: FileGlob_mutate_def setSizes_def init_glob_def generate_def
        addPayloadLine_def addLinesInRandomOrder_def Let_def)
  show ?thesis
    by (intro conjI split staging flat folder lits sizes chunks width names [THEN conjunct1]
        names [THEN conjunct2] differ run)
qed

theorem glob_chunk_count_index_width_witness:
  "''echo hello'' \<noteq> []
   \<and> sectionSize (setSizes id (\<lambda>k. ''d'' @ str_nat k) (init_glob 1 ''/tmp/'') ''echo hello'') = Some 2
   \<and> (0::nat) < 2
   \<and> startingDir (setSizes id (\<lambda>k. ''d'' @ str_nat k) (init_glob 1 ''/tmp/'') ''echo hello'')
        = Some ''/tmp/d0''
   \<and> \<lceil>real (length ''echo hello'') / real (2::nat)\<rceil> < 2 ^ 29
   \<and> sizePref (init_glob 1 ''/tmp/'') = 1
   \<and> length ''echo hello'' < 2 ^ 29
   \<and> cmdChunks (Some 2) ''echo hello'' = Inr [''ec'', ''ho'', '' h'', ''el'', ''lo'']
   \<and> int (length [''ec'', ''ho'', '' h'', ''el'', ''lo''])
        = \<lceil>real (length ''echo hello'') / real (2::nat)\<rceil>
   \<and> concat [''ec'', ''ho'', '' h'', ''el'', ''lo''] = ''echo hello''
   \<and> cmdLogLen 5 = Inr 3
   \<and> int 3 = max 1 \<lceil>log 2 (real (length [''ec'', ''ho'', '' h'', ''el'', ''lo'']))\<rceil>
   \<and> generate id (setSizes id (\<lambda>k. ''d'' @ str_nat k) (init_glob 1 ''/tmp/'') ''echo hello'')
         ''echo hello'' None =
        Inr ((setSizes id (\<lambda>k. ''d'' @ str_nat k) (init_glob 1 ''/tmp/'') ''echo hello'')
               \<lparr>workingDir := Some ''/tmp/d0'',
                 mangler :=
                   [PayloadLine (mkdirLine ''/tmp/d0''),
                    LinesInRandomOrder
                      [(printLine ''/tmp/d0'' 3 0, ''ec''), (printLine ''/tmp/d0'' 3 1, ''ho''),
                       (printLine ''/tmp/d0'' 3 2, '' h''), (printLine ''/tmp/d0'' 3 3, ''el''),
                       (printLine ''/tmp/d0'' 3 4, ''lo'')],
                    PayloadLine (catLine ''/tmp/d0'' 3),
                    PayloadLine (rmLine ''/tmp/d0'' 3)]\<rparr>)
   \<and> FileGlob_mutate id (\<lambda>k. ''d'' @ str_nat k) (init_glob 1 ''/tmp/'') ''echo hello'' =
        Inr [PayloadLine (mkdirLine ''/tmp/d0''),
             LinesInRandomOrder
               [(printLine ''/tmp/d0'' 3 0, ''ec''), (printLine ''/tmp/d0'' 3 1, ''ho''),
                (printLine ''/tmp/d0'' 3 2, '' h''), (printLine ''/tmp/d0'' 3 3, ''el''),
                (printLine ''/tmp/d0'' 3 4, ''lo'')],
             PayloadLine (''* *:cat:^ ^'' @ [CHR 0x27] @ ''/tmp/d0'' @ [CHR 0x27] @ ''/???* *END0''),
             PayloadLine (''* *:rm:^ ^'' @ [CHR 0x27] @ ''/tmp/d0'' @ [CHR 0x27] @ ''/???* *END0''),
             PayloadLine (''* *:rmdir:^ ^'' @ [CHR 0x27] @ ''/tmp/d0'' @ [CHR 0x27] @ ''END0* *'')]
   \<and> FolderGlob_mutate id (\<lambda>k. ''d'' @ str_nat k) (init_glob 1 ''/tmp/'') ''echo hello'' =
        Inr [PayloadLine (mkdirLine ''/tmp/d0/d1''),
             LinesInRandomOrder [(printLine ''/tmp/d0/d1'' 1 0, ''ec'')],
             PayloadLine (''* *:cat:^ ^'' @ [CHR 0x27] @ ''/tmp/d0/d1'' @ [CHR 0x27] @ ''/?* *END0''),
             PayloadLine (''* *:rm:^ ^'' @ [CHR 0x27] @ ''/tmp/d0/d1'' @ [CHR 0x27] @ ''/?* *END0''),
             PayloadLine (rmdirLine ''/tmp/d0/d1''),
             PayloadLine (mkdirLine ''/tmp/d0/d2''),
             LinesInRandomOrder [(printLine ''/tmp/d0/d2'' 1 0, ''ho'')],
             PayloadLine (''* *:cat:^ ^'' @ [CHR 0x27] @ ''/tmp/d0/d2'' @ [CHR 0x27] @ ''/?* *END0''),
             PayloadLine (''* *:rm:^ ^'' @ [CHR 0x27] @ ''/tmp/d0/d2'' @ [CHR 0x27] @ ''/?* *END0''),
             PayloadLine (rmdirLine ''/tmp/d0/d2''),
             PayloadLine (mkdirLine ''/tmp/d0/d3''),
             LinesInRandomOrder [(printLine ''/tmp/d0/d3'' 1 0, '' h'')],
             PayloadLine (''* *:cat:^ ^'' @ [CHR 0x27] @ ''/tmp/d0/d3'' @ [CHR 0x27] @ ''/?* *END0''),
             PayloadLine (''* *:rm:^ ^'' @ [CHR 0x27] @ ''/tmp/d0/d3'' @ [CHR 0x27] @ ''/?* *END0''),
             PayloadLine (rmdirLine ''/tmp/d0/d3''),
             PayloadLine (mkdirLine ''/tmp/d0/d4''),
             LinesInRandomOrder [(printLine ''/tmp/d0/d4'' 1 0, ''el'')],
             PayloadLine (''* *:cat:^ ^'' @ [CHR 0x27] @ ''/tmp/d0/d4'' @ [CHR 0x27] @ ''/?* *END0''),
             PayloadLine (''* *:rm:^ ^'' @ [CHR 0x27] @ ''/tmp/d0/d4'' @ [CHR 0x27] @ ''/?* *END0''),
             PayloadLine (rmdirLine ''/tmp/d0/d4''),
             PayloadLine (mkdirLine ''/tmp/d0/d5''),
             LinesInRandomOrder [(printLine ''/tmp/d0/d5'' 1 0, ''lo'')],
             PayloadLine (''* *:cat:^ ^'' @ [CHR 0x27] @ ''/tmp/d0/d5'' @ [CHR 0x27] @ ''/?* *END0''),
             PayloadLine (''* *:rm:^ ^'' @ [CHR 0x27] @ ''/tmp/d0/d5'' @ [CHR 0x27] @ ''/?* *END0''),
             PayloadLine (rmdirLine ''/tmp/d0/d5''),
             PayloadLine (''* *:rmdir:^ ^'' @ [CHR 0x27] @ ''/tmp/d0'' @ [CHR 0x27] @ ''END0* *'')]"
proof -
  let ?uniq = "\<lambda>k. ''d'' @ str_nat k"
  let ?self = "init_glob 1 ''/tmp/''"
  let ?g = "setSizes id ?uniq ?self ''echo hello''"
  let ?cs = "[''ec'', ''ho'', '' h'', ''el'', ''lo'']"
  have a: "''echo hello'' \<noteq> []" by simp
  have b: "sectionSize ?g = Some 2" by code_simp
  have c: "(0::nat) < 2" by simp
  have d: "startingDir ?g = Some ''/tmp/d0''" by code_simp
  have e: "\<lceil>real (length ''echo hello'') / real (2::nat)\<rceil> < 2 ^ 29" by simp
  have f: "sizePref ?self = 1" by (simp add: init_glob_def)
  have h: "length ''echo hello'' < 2 ^ 29" by simp
  have m: "mangler ?self = []" by (simp add: init_glob_def)
  have cs: "cmdChunks (Some 2) ''echo hello'' = Inr ?cs" by code_simp
  have w5: "cmdLogLen 5 = Inr 3" by code_simp
  have sd0: "id (writeDir ?self @ ?uniq (uniqueStrs ?self)) = ''/tmp/d0''" by code_simp
  note t = glob_chunk_count_index_width [OF a, where self = ?self and esc = id and uniq = ?uniq]
  from t [THEN conjunct2, THEN conjunct2, THEN conjunct1] f h
  obtain k cmdChars w sd where
        1: "sectionSize ?g = Some k"
    and 2: "sd = id (writeDir ?self @ ?uniq (uniqueStrs ?self))"
    and 3: "cmdChunks (Some k) ''echo hello'' = Inr cmdChars"
    and 4: "int (length cmdChars) = \<lceil>real (length ''echo hello'') / real k\<rceil>"
    and 5: "cmdLogLen (length cmdChars) = Inr w"
    and 6: "int w = max 1 \<lceil>log 2 (real (length cmdChars))\<rceil>"
    and 7: "FileGlob_mutate id ?uniq ?self ''echo hello'' =
               Inr (mangler ?self @
                    [PayloadLine (mkdirLine sd),
                     LinesInRandomOrder (printLines id sd w cmdChars),
                     PayloadLine (catLine sd w),
                     PayloadLine (rmLine sd w),
                     PayloadLine (rmdirLine sd @ ''* *'')])"
    by blast
  have k: "k = 2" using 1 b by simp
  have sd: "sd = ''/tmp/d0''" using 2 sd0 by simp
  have cmdChars: "cmdChars = ?cs" using 3 cs k by simp
  have l5: "length ?cs = 5" by simp
  have "cmdLogLen 5 = Inr w" using 5 unfolding cmdChars l5 .
  then have w: "w = 3" using w5 by simp
  have count: "int (length ?cs) = \<lceil>real (length ''echo hello'') / real (2::nat)\<rceil>"
    using 4 by (simp only: k cmdChars)
  have width: "int 3 = max 1 \<lceil>log 2 (real (length ?cs))\<rceil>"
    using 6 by (simp only: w cmdChars)
  have pl: "printLines id ''/tmp/d0'' 3 ?cs =
               [(printLine ''/tmp/d0'' 3 0, ''ec''), (printLine ''/tmp/d0'' 3 1, ''ho''),
                (printLine ''/tmp/d0'' 3 2, '' h''), (printLine ''/tmp/d0'' 3 3, ''el''),
                (printLine ''/tmp/d0'' 3 4, ''lo'')]" by code_simp
  have flat: "FileGlob_mutate id ?uniq ?self ''echo hello'' =
        Inr [PayloadLine (mkdirLine ''/tmp/d0''),
             LinesInRandomOrder
               [(printLine ''/tmp/d0'' 3 0, ''ec''), (printLine ''/tmp/d0'' 3 1, ''ho''),
                (printLine ''/tmp/d0'' 3 2, '' h''), (printLine ''/tmp/d0'' 3 3, ''el''),
                (printLine ''/tmp/d0'' 3 4, ''lo'')],
             PayloadLine (''* *:cat:^ ^'' @ [CHR 0x27] @ ''/tmp/d0'' @ [CHR 0x27] @ ''/???* *END0''),
             PayloadLine (''* *:rm:^ ^'' @ [CHR 0x27] @ ''/tmp/d0'' @ [CHR 0x27] @ ''/???* *END0''),
             PayloadLine (''* *:rmdir:^ ^'' @ [CHR 0x27] @ ''/tmp/d0'' @ [CHR 0x27] @ ''END0* *'')]"
    unfolding 7 m sd w cmdChars pl
    by (simp add: catLine_def rmLine_def rmdirLine_def numeral_3_eq_3)
  from t [where k = 2, THEN conjunct1] c
  obtain cmdChars0 where
        12: "cmdChunks (Some 2) ''echo hello'' = Inr cmdChars0"
    and 13: "concat cmdChars0 = ''echo hello''"
    by blast
  have cmdChars0: "cmdChars0 = ?cs" using 12 cs by simp
  have cat: "concat ?cs = ''echo hello''" using 13 by (simp only: cmdChars0)
  have mg: "mangler ?g = []" by code_simp
  from t [where k = 2 and g = ?g and sd = "''/tmp/d0''" and writeableDir = None,
      THEN conjunct2, THEN conjunct1] b c d e
  obtain cmdChars1 w1 wd1 where
        14: "cmdChunks (sectionSize ?g) ''echo hello'' = Inr cmdChars1"
    and 15: "cmdLogLen (length cmdChars1) = Inr w1"
    and 16: "wd1 = (case None :: string option of
                     None \<Rightarrow> ''/tmp/d0''
                   | Some d \<Rightarrow> if d = [] then ''/tmp/d0'' else ''/tmp/d0'' @ ''/'' @ id d)"
    and 17: "generate id ?g ''echo hello'' None =
               Inr (?g\<lparr>workingDir := Some wd1,
                      mangler := mangler ?g @
                        [PayloadLine (mkdirLine wd1),
                         LinesInRandomOrder (printLines id wd1 w1 cmdChars1),
                         PayloadLine (catLine wd1 w1),
                         PayloadLine (rmLine wd1 w1)]\<rparr>)"
    by blast
  have "cmdChunks (Some 2) ''echo hello'' = Inr cmdChars1" using 14 unfolding b .
  then have cmdChars1: "cmdChars1 = ?cs" using cs by simp
  have "cmdLogLen 5 = Inr w1" using 15 unfolding cmdChars1 l5 .
  then have w1: "w1 = 3" using w5 by simp
  have wd1: "wd1 = ''/tmp/d0''" using 16 by simp
  have gen: "generate id ?g ''echo hello'' None =
        Inr (?g\<lparr>workingDir := Some ''/tmp/d0'',
                 mangler :=
                   [PayloadLine (mkdirLine ''/tmp/d0''),
                    LinesInRandomOrder
                      [(printLine ''/tmp/d0'' 3 0, ''ec''), (printLine ''/tmp/d0'' 3 1, ''ho''),
                       (printLine ''/tmp/d0'' 3 2, '' h''), (printLine ''/tmp/d0'' 3 3, ''el''),
                       (printLine ''/tmp/d0'' 3 4, ''lo'')],
                    PayloadLine (catLine ''/tmp/d0'' 3),
                    PayloadLine (rmLine ''/tmp/d0'' 3)]\<rparr>)"
    unfolding 17 mg wd1 w1 cmdChars1 pl by simp
  from t [THEN conjunct2, THEN conjunct2, THEN conjunct2, THEN conjunct1] f
  obtain k' cmdChars' sd' where
        8: "sectionSize ?g = Some k'"
    and 9: "sd' = id (writeDir ?self @ ?uniq (uniqueStrs ?self))"
    and 10: "cmdChunks (Some k') ''echo hello'' = Inr cmdChars'"
    and 11: "FolderGlob_mutate id ?uniq ?self ''echo hello'' =
               Inr (mangler ?self @
                    concat (map (\<lambda>(u, chunk).
                       [PayloadLine (mkdirLine (if ?uniq u = [] then sd' else sd' @ ''/'' @ id (?uniq u))),
                        LinesInRandomOrder
                          [(printLine (if ?uniq u = [] then sd' else sd' @ ''/'' @ id (?uniq u)) 1 0,
                            id chunk)],
                        PayloadLine (catLine (if ?uniq u = [] then sd' else sd' @ ''/'' @ id (?uniq u)) 1),
                        PayloadLine (rmLine (if ?uniq u = [] then sd' else sd' @ ''/'' @ id (?uniq u)) 1),
                        PayloadLine (rmdirLine (if ?uniq u = [] then sd' else sd' @ ''/'' @ id (?uniq u)))])
                      (zip [Suc (uniqueStrs ?self)..<Suc (uniqueStrs ?self) + length cmdChars'] cmdChars'))
                    @ [PayloadLine (rmdirLine sd' @ ''* *'')])"
    by blast
  have k': "k' = 2" using 8 b by simp
  have sd': "sd' = ''/tmp/d0''" using 9 sd0 by simp
  have cmdChars': "cmdChars' = ?cs" using 10 cs k' by simp
  have u0: "uniqueStrs ?self = 0" by (simp add: init_glob_def)
  have z: "zip [Suc 0..<Suc 0 + length ?cs] ?cs
             = [(1, ''ec''), (2, ''ho''), (3, '' h''), (4, ''el''), (5, ''lo'')]" by code_simp
  have names: "str_nat (Suc 0) = ''1''" "str_nat 2 = ''2''" "str_nat 3 = ''3''" "str_nat 4 = ''4''"
      "str_nat 5 = ''5''" by code_simp+
  have folder: "FolderGlob_mutate id ?uniq ?self ''echo hello'' =
        Inr [PayloadLine (mkdirLine ''/tmp/d0/d1''),
             LinesInRandomOrder [(printLine ''/tmp/d0/d1'' 1 0, ''ec'')],
             PayloadLine (''* *:cat:^ ^'' @ [CHR 0x27] @ ''/tmp/d0/d1'' @ [CHR 0x27] @ ''/?* *END0''),
             PayloadLine (''* *:rm:^ ^'' @ [CHR 0x27] @ ''/tmp/d0/d1'' @ [CHR 0x27] @ ''/?* *END0''),
             PayloadLine (rmdirLine ''/tmp/d0/d1''),
             PayloadLine (mkdirLine ''/tmp/d0/d2''),
             LinesInRandomOrder [(printLine ''/tmp/d0/d2'' 1 0, ''ho'')],
             PayloadLine (''* *:cat:^ ^'' @ [CHR 0x27] @ ''/tmp/d0/d2'' @ [CHR 0x27] @ ''/?* *END0''),
             PayloadLine (''* *:rm:^ ^'' @ [CHR 0x27] @ ''/tmp/d0/d2'' @ [CHR 0x27] @ ''/?* *END0''),
             PayloadLine (rmdirLine ''/tmp/d0/d2''),
             PayloadLine (mkdirLine ''/tmp/d0/d3''),
             LinesInRandomOrder [(printLine ''/tmp/d0/d3'' 1 0, '' h'')],
             PayloadLine (''* *:cat:^ ^'' @ [CHR 0x27] @ ''/tmp/d0/d3'' @ [CHR 0x27] @ ''/?* *END0''),
             PayloadLine (''* *:rm:^ ^'' @ [CHR 0x27] @ ''/tmp/d0/d3'' @ [CHR 0x27] @ ''/?* *END0''),
             PayloadLine (rmdirLine ''/tmp/d0/d3''),
             PayloadLine (mkdirLine ''/tmp/d0/d4''),
             LinesInRandomOrder [(printLine ''/tmp/d0/d4'' 1 0, ''el'')],
             PayloadLine (''* *:cat:^ ^'' @ [CHR 0x27] @ ''/tmp/d0/d4'' @ [CHR 0x27] @ ''/?* *END0''),
             PayloadLine (''* *:rm:^ ^'' @ [CHR 0x27] @ ''/tmp/d0/d4'' @ [CHR 0x27] @ ''/?* *END0''),
             PayloadLine (rmdirLine ''/tmp/d0/d4''),
             PayloadLine (mkdirLine ''/tmp/d0/d5''),
             LinesInRandomOrder [(printLine ''/tmp/d0/d5'' 1 0, ''lo'')],
             PayloadLine (''* *:cat:^ ^'' @ [CHR 0x27] @ ''/tmp/d0/d5'' @ [CHR 0x27] @ ''/?* *END0''),
             PayloadLine (''* *:rm:^ ^'' @ [CHR 0x27] @ ''/tmp/d0/d5'' @ [CHR 0x27] @ ''/?* *END0''),
             PayloadLine (rmdirLine ''/tmp/d0/d5''),
             PayloadLine (''* *:rmdir:^ ^'' @ [CHR 0x27] @ ''/tmp/d0'' @ [CHR 0x27] @ ''END0* *'')]"
    unfolding 11 m sd' cmdChars' u0 z
    by (simp add: names catLine_def rmLine_def rmdirLine_def)
  show ?thesis by (intro conjI a b c d e f h cs count cat w5 width gen flat folder)
qed

text \<open>
  The claim as the spec states it fails for \<open>FolderGlob.mutate\<close> on the command \<open>abc\<close> at
  size preference 3: the command is split into 3 chunks, for which the claim's index
  width is \<open>max 1 \<lceil>log 2 3\<rceil> = 2\<close>, but every read and delete line of the payload has one
  \<open>?\<close>, and the read line with two \<open>?\<close> is not in the payload.
\<close>

theorem glob_chunk_count_index_width_counterexample:
  "''abc'' \<noteq> []
   \<and> sectionSize (setSizes id (\<lambda>k. ''d'' @ str_nat k) (init_glob 3 ''/tmp/'') ''abc'') = Some 1
   \<and> cmdChunks (Some 1) ''abc'' = Inr [''a'', ''b'', ''c'']
   \<and> max 1 \<lceil>log 2 (real (length [''a'', ''b'', ''c'']))\<rceil> = 2
   \<and> FolderGlob_mutate id (\<lambda>k. ''d'' @ str_nat k) (init_glob 3 ''/tmp/'') ''abc'' =
        Inr [PayloadLine (mkdirLine ''/tmp/d0/d1''),
             LinesInRandomOrder [(printLine ''/tmp/d0/d1'' 1 0, ''a'')],
             PayloadLine (''* *:cat:^ ^'' @ [CHR 0x27] @ ''/tmp/d0/d1'' @ [CHR 0x27] @ ''/?* *END0''),
             PayloadLine (''* *:rm:^ ^'' @ [CHR 0x27] @ ''/tmp/d0/d1'' @ [CHR 0x27] @ ''/?* *END0''),
             PayloadLine (rmdirLine ''/tmp/d0/d1''),
             PayloadLine (mkdirLine ''/tmp/d0/d2''),
             LinesInRandomOrder [(printLine ''/tmp/d0/d2'' 1 0, ''b'')],
             PayloadLine (''* *:cat:^ ^'' @ [CHR 0x27] @ ''/tmp/d0/d2'' @ [CHR 0x27] @ ''/?* *END0''),
             PayloadLine (''* *:rm:^ ^'' @ [CHR 0x27] @ ''/tmp/d0/d2'' @ [CHR 0x27] @ ''/?* *END0''),
             PayloadLine (rmdirLine ''/tmp/d0/d2''),
             PayloadLine (mkdirLine ''/tmp/d0/d3''),
             LinesInRandomOrder [(printLine ''/tmp/d0/d3'' 1 0, ''c'')],
             PayloadLine (''* *:cat:^ ^'' @ [CHR 0x27] @ ''/tmp/d0/d3'' @ [CHR 0x27] @ ''/?* *END0''),
             PayloadLine (''* *:rm:^ ^'' @ [CHR 0x27] @ ''/tmp/d0/d3'' @ [CHR 0x27] @ ''/?* *END0''),
             PayloadLine (rmdirLine ''/tmp/d0/d3''),
             PayloadLine (''* *:rmdir:^ ^'' @ [CHR 0x27] @ ''/tmp/d0'' @ [CHR 0x27] @ ''END0* *'')]
   \<and> catLine ''/tmp/d0/d1'' 2
        = ''* *:cat:^ ^'' @ [CHR 0x27] @ ''/tmp/d0/d1'' @ [CHR 0x27] @ ''/??* *END0''
   \<and> PayloadLine (catLine ''/tmp/d0/d1'' 2)
        \<notin> set (projr (FolderGlob_mutate id (\<lambda>k. ''d'' @ str_nat k) (init_glob 3 ''/tmp/'') ''abc''))"
proof -
  have a: "''abc'' \<noteq> []" by simp
  have b: "sectionSize (setSizes id (\<lambda>k. ''d'' @ str_nat k) (init_glob 3 ''/tmp/'') ''abc'') = Some 1"
    by code_simp
  have c: "cmdChunks (Some 1) ''abc'' = Inr [''a'', ''b'', ''c'']" by code_simp
  have w3: "cmdLogLen 3 = Inr 2" by code_simp
  from cmdLogLen_pos [of 3] w3 have "int 2 = max 1 \<lceil>log 2 (real (3::nat))\<rceil>" by auto
  then have d: "max 1 \<lceil>log 2 (real (length [''a'', ''b'', ''c'']))\<rceil> = 2" by simp
  have e: "FolderGlob_mutate id (\<lambda>k. ''d'' @ str_nat k) (init_glob 3 ''/tmp/'') ''abc'' =
        Inr [PayloadLine (mkdirLine ''/tmp/d0/d1''),
             LinesInRandomOrder [(printLine ''/tmp/d0/d1'' 1 0, ''a'')],
             PayloadLine (''* *:cat:^ ^'' @ [CHR 0x27] @ ''/tmp/d0/d1'' @ [CHR 0x27] @ ''/?* *END0''),
             PayloadLine (''* *:rm:^ ^'' @ [CHR 0x27] @ ''/tmp/d0/d1'' @ [CHR 0x27] @ ''/?* *END0''),
             PayloadLine (rmdirLine ''/tmp/d0/d1''),
             PayloadLine (mkdirLine ''/tmp/d0/d2''),
             LinesInRandomOrder [(printLine ''/tmp/d0/d2'' 1 0, ''b'')],
             PayloadLine (''* *:cat:^ ^'' @ [CHR 0x27] @ ''/tmp/d0/d2'' @ [CHR 0x27] @ ''/?* *END0''),
             PayloadLine (''* *:rm:^ ^'' @ [CHR 0x27] @ ''/tmp/d0/d2'' @ [CHR 0x27] @ ''/?* *END0''),
             PayloadLine (rmdirLine ''/tmp/d0/d2''),
             PayloadLine (mkdirLine ''/tmp/d0/d3''),
             LinesInRandomOrder [(printLine ''/tmp/d0/d3'' 1 0, ''c'')],
             PayloadLine (''* *:cat:^ ^'' @ [CHR 0x27] @ ''/tmp/d0/d3'' @ [CHR 0x27] @ ''/?* *END0''),
             PayloadLine (''* *:rm:^ ^'' @ [CHR 0x27] @ ''/tmp/d0/d3'' @ [CHR 0x27] @ ''/?* *END0''),
             PayloadLine (rmdirLine ''/tmp/d0/d3''),
             PayloadLine (''* *:rmdir:^ ^'' @ [CHR 0x27] @ ''/tmp/d0'' @ [CHR 0x27] @ ''END0* *'')]"
    by code_simp
  have f: "catLine ''/tmp/d0/d1'' 2
        = ''* *:cat:^ ^'' @ [CHR 0x27] @ ''/tmp/d0/d1'' @ [CHR 0x27] @ ''/??* *END0''"
    by code_simp
  have g: "PayloadLine (catLine ''/tmp/d0/d1'' 2)
        \<notin> set (projr (FolderGlob_mutate id (\<lambda>k. ''d'' @ str_nat k) (init_glob 3 ''/tmp/'') ''abc''))"
    by code_simp
  show ?thesis by (intro conjI a b c d e f g)
qed

section \<open>The names of the chunk files\<close>

lemma lex_less_append_same: "lex_less r (xs @ as) (xs @ bs) = lex_less r as bs"
  by (induction xs) auto

lemma lex_less_append:
  "length xs = length ys \<Longrightarrow> lex_less r xs ys \<Longrightarrow> lex_less r (xs @ as) (ys @ bs)"
  by (induction r xs ys rule: lex_less.induct) auto

lemma lex_less_irrefl: "\<not> lex_less r xs xs"
  by (induction xs) auto

lemma glob_match_wildcards: "glob_match (replicate w (CHR ''?'')) s = (length s = w)"
proof (induction w arbitrary: s)
  case 0
  then show ?case by (cases s) auto
next
  case (Suc w)
  then show ?case by (cases s) auto
qed

lemma format_0b_1: "i < 2 \<Longrightarrow> format_0b i (Suc 0) = [if i = 0 then CHR ''0'' else CHR ''1'']"
  by (simp add: format_0b_def bin_str.simps [of i])

lemma format_0b_Suc:
  assumes "1 \<le> w"
  shows "format_0b i (Suc w) = format_0b (i div 2) w @ [if i mod 2 = 0 then CHR ''0'' else CHR ''1'']"
proof (cases "i < 2")
  case True
  then have d: "i div 2 = 0" by simp
  have b0: "bin_str 0 = ''0''" by (simp add: bin_str.simps [of 0])
  have "format_0b 0 w = replicate w (CHR ''0'')"
    using assms by (cases w) (simp_all add: format_0b_def b0 replicate_append_same)
  moreover have "format_0b i (Suc w) = replicate w (CHR ''0'') @ [if i = 0 then CHR ''0'' else CHR ''1'']"
    using True by (simp add: format_0b_def bin_str.simps [of i])
  ultimately show ?thesis using True d by (cases "i = 0") auto
next
  case False
  then have "bin_str i = bin_str (i div 2) @ [if i mod 2 = 0 then CHR ''0'' else CHR ''1'']"
    by (subst bin_str.simps) simp
  then show ?thesis by (simp add: format_0b_def)
qed

lemma chunkName_map: "chunkName w i = map glob_digit (format_0b i w)"
  by (simp add: chunkName_def replace_char_def glob_digit_def)

lemma bin_str_digits: "set (bin_str i) \<subseteq> {CHR ''0'', CHR ''1''}"
proof (induction i rule: bin_str.induct)
  case (1 n)
  show ?case
  proof (cases "n < 2")
    case True
    then show ?thesis by (subst bin_str.simps) simp
  next
    case False
    then show ?thesis using 1 by (subst bin_str.simps) auto
  qed
qed

lemma chunkName_digits:
  "chunkName w i = map (\<lambda>d. if d = CHR ''0'' then CHR ''?'' else CHR 0x0A) (format_0b i w)"
proof -
  have "set (format_0b i w) \<subseteq> {CHR ''0'', CHR ''1''}"
    using bin_str_digits [of i] by (auto simp: format_0b_def)
  then have "\<And>d. d \<in> set (format_0b i w) \<Longrightarrow>
      glob_digit d = (if d = CHR ''0'' then CHR ''?'' else CHR 0x0A)"
    by (auto simp: glob_digit_def)
  then show ?thesis unfolding chunkName_map by (intro map_cong refl)
qed

lemma chunkName_1: "i < 2 \<Longrightarrow> chunkName (Suc 0) i = [if i = 0 then CHR ''?'' else CHR 0x0A]"
  by (simp add: chunkName_map format_0b_1 glob_digit_def)

lemma chunkName_Suc:
  "1 \<le> w \<Longrightarrow> chunkName (Suc w) i = chunkName w (i div 2) @ [if i mod 2 = 0 then CHR ''?'' else CHR 0x0A]"
  by (simp add: chunkName_map format_0b_Suc glob_digit_def)

lemma chunkName_length: "i < 2 ^ Suc v \<Longrightarrow> length (chunkName (Suc v) i) = Suc v"
proof (induction v arbitrary: i)
  case 0
  then show ?case by (simp add: chunkName_1)
next
  case (Suc v)
  from Suc.prems have "i div 2 < 2 ^ Suc v" by simp
  then show ?case using Suc.IH by (simp add: chunkName_Suc)
qed

lemma chunkName_order:
  assumes "i < j" and "j < 2 ^ Suc v"
  shows "(r (CHR ''?'') < r (CHR 0x0A) \<longrightarrow> lex_less r (chunkName (Suc v) i) (chunkName (Suc v) j))
       \<and> (r (CHR 0x0A) < r (CHR ''?'') \<longrightarrow> lex_less r (chunkName (Suc v) j) (chunkName (Suc v) i))"
  using assms
proof (induction v arbitrary: i j)
  case 0
  then have "i = 0" "j = 1" by auto
  then show ?case by (simp add: chunkName_1)
next
  case (Suc v)
  have j2: "j div 2 < 2 ^ Suc v" and i2: "i div 2 < 2 ^ Suc v" using Suc.prems by auto
  have len: "length (chunkName (Suc v) (i div 2)) = length (chunkName (Suc v) (j div 2))"
    using i2 j2 by (simp add: chunkName_length)
  show ?case
  proof (cases "i div 2 < j div 2")
    case True
    from Suc.IH [OF True j2] len show ?thesis
      by (simp add: chunkName_Suc lex_less_append del: upt_Suc)
  next
    case False
    then have eq: "i div 2 = j div 2" and m: "i mod 2 = 0" "j mod 2 = 1"
      using Suc.prems(1) by presburger+
    show ?thesis by (simp add: chunkName_Suc eq m lex_less_append_same)
  qed
qed

lemma cmdLogLen_bound:
  assumes "cmdLogLen n = Inr w"
  shows "n \<le> 2 ^ w \<and> (\<exists>v. w = Suc v)"
proof -
  have n: "0 < n" using assms by (auto simp: cmdLogLen_def split: if_splits)
  have "n \<le> 2 ^ ceillog2 n" by (rule le_two_power_ceillog2)
  moreover have "w = (if ceillog2 n = 0 then 1 else ceillog2 n)"
    using assms n by (auto simp: cmdLogLen_def Let_def split: if_splits)
  ultimately show ?thesis using n by (cases "ceillog2 n") auto
qed

text \<open>
  C2, as the code has it. The chunk with index \<open>i\<close> is written to the file whose name is the
  binary numeral of \<open>i\<close>, \<open>w\<close> digits wide, with every digit 0 replaced by \<open>?\<close> and every
  digit 1 by a newline. The pattern of \<open>w\<close> characters \<open>?\<close> in the read and delete lines
  matches exactly the names of \<open>w\<close> characters, so it matches every chunk's name. The
  newline has the code 10 and \<open>?\<close> the code 63: in byte order the character for 1 sorts
  before the character for 0, and the byte-lexicographic order of the names of two chunks
  is the reverse of the order of their indices. Under a collation that ranks \<open>?\<close> before
  the newline the order of the names is the order of the indices. In every case different
  indices have different names.
\<close>

theorem chunk_names_order:
  assumes "cmdLogLen n = Inr w" and "i < j" and "j < n"
  shows "chunkName w i = map (\<lambda>d. if d = CHR ''0'' then CHR ''?'' else CHR 0x0A) (format_0b i w)
       \<and> chunkName w j = map (\<lambda>d. if d = CHR ''0'' then CHR ''?'' else CHR 0x0A) (format_0b j w)
       \<and> glob_match (replicate w (CHR ''?'')) (chunkName w i)
       \<and> glob_match (replicate w (CHR ''?'')) (chunkName w j)
       \<and> (\<forall>s. glob_match (replicate w (CHR ''?'')) s = (length s = w))
       \<and> (of_char (CHR 0x0A) :: nat) < of_char (CHR ''?'')
       \<and> lex_less of_char (chunkName w j) (chunkName w i)
       \<and> (\<forall>rank. rank (CHR ''?'') < rank (CHR 0x0A) \<longrightarrow> lex_less rank (chunkName w i) (chunkName w j))
       \<and> (\<forall>rank. rank (CHR 0x0A) < rank (CHR ''?'') \<longrightarrow> lex_less rank (chunkName w j) (chunkName w i))
       \<and> chunkName w i \<noteq> chunkName w j"
proof -
  obtain v where w: "w = Suc v" and n: "n \<le> 2 ^ w" using cmdLogLen_bound [OF assms(1)] by blast
  have j: "j < 2 ^ Suc v" and i: "i < 2 ^ Suc v" using assms(2,3) n w by auto
  have ord: "(r (CHR ''?'') < r (CHR 0x0A) \<longrightarrow> lex_less r (chunkName w i) (chunkName w j))
       \<and> (r (CHR 0x0A) < r (CHR ''?'') \<longrightarrow> lex_less r (chunkName w j) (chunkName w i))" for r
    using chunkName_order [OF assms(2) j] w by simp
  have byte: "(of_char (CHR 0x0A) :: nat) < of_char (CHR ''?'')" by simp
  have rev: "lex_less of_char (chunkName w j) (chunkName w i)"
    using ord [of of_char] byte by simp
  have ne: "chunkName w i \<noteq> chunkName w j"
    using rev lex_less_irrefl by metis
  have m: "chunkName w k = map (\<lambda>d. if d = CHR ''0'' then CHR ''?'' else CHR 0x0A) (format_0b k w)" for k
    by (rule chunkName_digits)
  have len: "length (chunkName w k) = w" if "k < 2 ^ Suc v" for k
    using chunkName_length [OF that] w by simp
  show ?thesis
    using m [of i] m [of j] len [OF i] len [OF j] byte rev ord ne
    by (simp add: glob_match_wildcards)
qed

theorem chunk_names_order_witness:
  "cmdLogLen 2 = Inr 1 \<and> (0::nat) < 1 \<and> (1::nat) < 2
   \<and> glob_match (replicate 1 (CHR ''?'')) (chunkName 1 0)
   \<and> glob_match (replicate 1 (CHR ''?'')) (chunkName 1 1)
   \<and> lex_less of_char (chunkName 1 1) (chunkName 1 0)
   \<and> (\<lambda>c. if c = CHR ''?'' then 0 else 1) (CHR ''?'') < (\<lambda>c. if c = CHR ''?'' then 0 else (1::nat)) (CHR 0x0A)
   \<and> lex_less (\<lambda>c. if c = CHR ''?'' then 0 else 1) (chunkName 1 0) (chunkName 1 1)
   \<and> chunkName 1 0 \<noteq> chunkName 1 1"
proof -
  have a: "cmdLogLen 2 = Inr 1" by (simp add: cmdLogLen_def)
  have b: "(0::nat) < 1" by simp
  have c: "(1::nat) < 2" by simp
  have r: "(\<lambda>c. if c = CHR ''?'' then 0 else 1) (CHR ''?'')
             < (\<lambda>c. if c = CHR ''?'' then 0 else (1::nat)) (CHR 0x0A)" by simp
  note t = chunk_names_order [OF a b c]
  note t2 = t [THEN conjunct2, THEN conjunct2]
  have g0: "glob_match (replicate 1 (CHR ''?'')) (chunkName 1 0)"
    by (rule t2 [THEN conjunct1])
  have g1: "glob_match (replicate 1 (CHR ''?'')) (chunkName 1 1)"
    by (rule t2 [THEN conjunct2, THEN conjunct1])
  note t6 = t2 [THEN conjunct2, THEN conjunct2, THEN conjunct2, THEN conjunct2]
  have rev: "lex_less of_char (chunkName 1 1) (chunkName 1 0)"
    by (rule t6 [THEN conjunct1])
  have fwd: "lex_less (\<lambda>c. if c = CHR ''?'' then 0 else 1) (chunkName 1 0) (chunkName 1 1)"
    by (rule t6 [THEN conjunct2, THEN conjunct1, THEN spec, THEN mp]) (rule r)
  have ne: "chunkName 1 0 \<noteq> chunkName 1 1"
    by (rule t6 [THEN conjunct2, THEN conjunct2, THEN conjunct2])
  show ?thesis by (intro conjI a b c g0 g1 rev r fwd ne)
qed

text \<open>
  The claim as the spec states it fails on the two chunks of the command \<open>id\<close>: the name
  of chunk 0 is \<open>?\<close>, the name of chunk 1 is a newline, \<open>?\<close> does not sort before the newline
  in lexicographic (byte) order, and the name of chunk 1 comes first.
\<close>

theorem chunk_names_order_counterexample:
  "cmdChunks (Some 1) ''id'' = Inr [''i'', ''d''] \<and> cmdLogLen 2 = Inr 1
   \<and> chunkName 1 0 = ''?'' \<and> chunkName 1 1 = [CHR 0x0A]
   \<and> \<not> ((of_char (CHR ''?'') :: nat) < of_char (CHR 0x0A))
   \<and> \<not> lex_less of_char (chunkName 1 0) (chunkName 1 1)
   \<and> lex_less of_char (chunkName 1 1) (chunkName 1 0)"
  by (simp add: cmdChunks_def py_range_def cmdLogLen_def chunkName_1 upt_conv_Cons)

section \<open>XorNonNull: the key and the bytes it meets\<close>

subsection \<open>Bytes and characters\<close>

lemma of_char_less_256: "(of_char c :: nat) < 256"
proof -
  have "(of_char c :: nat) mod 256 = of_char c" by (rule of_char_mod_256)
  moreover have "(of_char c :: nat) mod 256 < 256" by simp
  ultimately show ?thesis by simp
qed

lemma unat_byte: "n < 256 \<Longrightarrow> unat (of_nat n :: byte) = n"
  by (simp add: unat_of_nat)

lemma chr_of_char: "chr (of_nat (of_char c)) = c"
  by (simp add: chr_def unat_byte of_char_less_256)

lemma xor_zero_iff: "(a XOR b = 0) = (a = b)" for a b :: byte
proof
  assume "a XOR b = 0"
  then have "a XOR (a XOR b) = a" by simp
  then show "a = b" by (simp add: word_bw_assocs [symmetric])
qed simp

lemma utf8_ascii: "ascii s \<Longrightarrow> utf8 s = map (\<lambda>c. of_nat (of_char c)) s"
  by (induction s) (auto simp: utf8_def utf8_char_def ascii_def)

lemma int_from_bytes_two: "int_from_bytes [a, b] = unat a * 256 + unat b"
  by (simp add: int_from_bytes_def)

lemma int_from_bytes_one: "int_from_bytes [a] = unat a"
  by (simp add: int_from_bytes_def)

lemma int_from_bytes_utf8_char:
  assumes "int_from_bytes (utf8_char ch) < 256"
  shows "(of_char ch :: nat) < 128 \<and> int_from_bytes (utf8_char ch) = of_char ch"
proof (cases "(of_char ch :: nat) < 128")
  case True
  then have "utf8_char ch = [of_nat (of_char ch)]" by (simp add: utf8_char_def)
  then show ?thesis using True by (simp add: int_from_bytes_one unat_byte)
next
  case False
  define n where "n = (of_char ch :: nat)"
  have n: "n < 256" unfolding n_def by (rule of_char_less_256)
  then have "n div 64 < 4" by simp
  then have "192 + n div 64 < 256" by simp
  then have u: "unat (of_nat (192 + n div 64) :: byte) = 192 + n div 64"
    by (rule unat_byte)
  have "utf8_char ch = [of_nat (192 + n div 64), of_nat (128 + n mod 64)]"
    using False by (simp add: utf8_char_def n_def Let_def)
  then have "int_from_bytes (utf8_char ch) = (192 + n div 64) * 256 + unat (of_nat (128 + n mod 64) :: byte)"
    by (simp only: int_from_bytes_two u)
  then have "256 \<le> int_from_bytes (utf8_char ch)" by simp
  with assms show ?thesis by simp
qed


subsection \<open>The blacklist and the random draws\<close>

lemma fold_remove1_set: "distinct cl \<Longrightarrow> set (fold remove1 xs cl) = set cl - set xs"
  by (induction xs arbitrary: cl) (auto simp: set_remove1_eq)

lemma fold_remove1_subset: "set (fold remove1 xs cl) \<subseteq> set cl"
proof (induction xs arbitrary: cl)
  case Nil
  show ?case by simp
next
  case (Cons x xs)
  have "set (fold remove1 xs (remove1 x cl)) \<subseteq> set (remove1 x cl)" by (rule Cons.IH)
  also have "\<dots> \<subseteq> set cl" by (rule set_remove1_subset)
  finally show ?case by simp
qed

lemma fold_remove1_length: "length cl - length xs \<le> length (fold remove1 xs cl)"
proof (induction xs arbitrary: cl)
  case Nil
  show ?case by simp
next
  case (Cons x xs)
  have "length cl - 1 \<le> length (remove1 x cl)" by (simp add: length_remove1)
  then have "length cl - length (x # xs) \<le> length (remove1 x cl) - length xs" by simp
  also have "\<dots> \<le> length (fold remove1 xs (remove1 x cl))" by (rule Cons.IH)
  finally show ?case by simp
qed

lemma charBlackList_set: "distinct cl \<Longrightarrow> set (charBlackList cl ns) = set cl - set ns"
  by (simp add: charBlackList_def fold_remove1_set)

lemma charBlackList_subset: "set (charBlackList cl ns) \<subseteq> set cl"
  unfolding charBlackList_def by (rule fold_remove1_subset)

lemma randSelect_in:
  "xs \<noteq> [] \<Longrightarrow> \<exists>x. randSelect rnd c xs = Inr (x, Suc c) \<and> x \<in> set xs"
  by (simp add: randSelect_def)

lemma randGenStr_fixed:
  assumes "cl \<noteq> [] \<or> n = 0"
  shows "\<exists>s. randGenStr rnd c cl n n = Inr (s, Suc c + n) \<and> length s = n \<and> set s \<subseteq> set cl"
  using assms by (auto simp: randGenStr_def)

lemma ascii_subset: "ascii cl \<Longrightarrow> set s \<subseteq> set cl \<Longrightarrow> ascii s"
  by (auto simp: ascii_def list_all_iff)

lemma ascii_mem: "ascii cl \<Longrightarrow> ch \<in> set cl \<Longrightarrow> (of_char ch :: nat) < 128"
  by (auto simp: ascii_def list_all_iff)

lemma int_from_bytes_ascii:
  "(of_char ch :: nat) < 128 \<Longrightarrow> int_from_bytes (utf8_char ch) = of_char ch"
  by (simp add: utf8_char_def int_from_bytes_one unat_byte)

subsection \<open>The key never meets its stride\<close>

lemma genXorKey_loop_inv:
  assumes "genXorKey_loop rnd cl k cmd idxs key c = Inr (Some key', c')"
    and "distinct cl" and "distinct idxs"
  shows "length key' = length key
       \<and> (\<forall>i \<in> set idxs. chr (key' ! i) \<notin> set (stride i k cmd))
       \<and> (\<forall>j. j \<notin> set idxs \<longrightarrow> key' ! j = key ! j)"
  using assms(1,3)
proof (induction idxs arbitrary: key c)
  case Nil
  then show ?case by simp
next
  case (Cons i rest)
  let ?nullchars = "stride i k cmd"
  let ?bl = "charBlackList cl ?nullchars"
  from Cons.prems(2) have d: "distinct rest" and ni: "i \<notin> set rest" by auto
  from Cons.prems(1) have len: "i < length key"
    by (auto simp: Let_def split: if_splits)
  show ?case
  proof (cases "chr (key ! i) \<in> set ?nullchars")
    case False
    with Cons.prems(1) len
    have run: "genXorKey_loop rnd cl k cmd rest key c = Inr (Some key', c')"
      by (simp add: Let_def)
    from Cons.IH [OF run d] ni False show ?thesis by auto
  next
    case True
    with Cons.prems(1) len have bl: "?bl \<noteq> []"
      by (auto simp: Let_def split: if_splits)
    then obtain ch where sel: "randSelect rnd c ?bl = Inr (ch, Suc c)" and ch: "ch \<in> set ?bl"
      using randSelect_in by blast
    from Cons.prems(1) len True bl sel
    have v: "int_from_bytes (utf8_char ch) < 256"
      and run: "genXorKey_loop rnd cl k cmd rest (key[i := of_nat (int_from_bytes (utf8_char ch))]) (Suc c)
                 = Inr (Some key', c')"
      by (auto simp: Let_def split: if_splits)
    from int_from_bytes_utf8_char [OF v]
    have e: "int_from_bytes (utf8_char ch) = of_char ch" by simp
    have notin: "ch \<notin> set ?nullchars"
      using ch charBlackList_set [OF assms(2)] by simp
    from Cons.IH [OF run d]
    have 1: "length key' = length key"
      and 2: "\<forall>j \<in> set rest. chr (key' ! j) \<notin> set (stride j k cmd)"
      and 3: "\<forall>j. j \<notin> set rest \<longrightarrow> key' ! j = key[i := of_nat (int_from_bytes (utf8_char ch))] ! j"
      by simp_all
    from 3 ni len have "key' ! i = of_nat (of_char ch)" by (simp add: e)
    then have "chr (key' ! i) = ch" by (simp add: chr_of_char)
    with notin 1 2 3 show ?thesis by auto
  qed
qed

lemma genXorKey_inv:
  assumes "genXorKey rnd c cl keyLen cmd = Inr (Some key, c')" and "distinct cl"
  shows "\<forall>i < keyLen. chr (key ! i) \<notin> set (stride i keyLen cmd)"
proof -
  from assms(1) obtain s c1 where
    "genXorKey_loop rnd cl keyLen cmd [0..<keyLen] (utf8 s) c1 = Inr (Some key, c')"
    by (auto simp: genXorKey_def split: sum.splits prod.splits)
  from genXorKey_loop_inv [OF this assms(2)] show ?thesis by simp
qed

lemma nth_in_stride:
  assumes "j < length xs" and "0 < k"
  shows "xs ! j \<in> set (stride (j mod k) k xs)"
proof -
  have "j mod k \<le> j" by simp
  moreover have "(j - j mod k) mod k = 0" by (simp add: minus_mod_eq_mult_div)
  ultimately have "j \<in> set (filter (\<lambda>j'. (j' - j mod k) mod k = 0) [j mod k..<length xs])"
    using assms by simp
  then show ?thesis unfolding stride_def by (metis (no_types, lifting) image_eqI set_map)
qed


lemma length_utf8: "length s \<le> length (utf8 s)"
  by (induction s) (auto simp: utf8_def utf8_char_def Let_def)

lemma genXorKey_length:
  assumes "genXorKey rnd c cl keyLen cmd = Inr (Some key, c')" and "distinct cl"
  shows "keyLen \<le> length key"
proof -
  from assms(1) obtain s c1 where
    r: "randGenStr rnd c cl keyLen keyLen = Inr (s, c1)" and
    l: "genXorKey_loop rnd cl keyLen cmd [0..<keyLen] (utf8 s) c1 = Inr (Some key, c')"
    by (auto simp: genXorKey_def split: sum.splits prod.splits)
  from r have "length s = keyLen" by (auto simp: randGenStr_def Let_def split: if_splits)
  moreover from genXorKey_loop_inv [OF l assms(2)] have "length key = length (utf8 s)" by simp
  ultimately show ?thesis using length_utf8 [of s] by simp
qed

lemma xor_loop_result:
  assumes "0 < k" and "k \<le> length key" and "distinct idxs" and "\<forall>i \<in> set idxs. i < length b"
  shows "\<exists>b'. xor_loop key k idxs b = Inr b' \<and> length b' = length b
           \<and> (\<forall>j < length b. b' ! j = (if j \<in> set idxs then b ! j XOR key ! (j mod k) else b ! j))"
  using assms(3,4)
proof (induction idxs arbitrary: b)
  case Nil
  then show ?case by simp
next
  case (Cons i rest)
  let ?b = "b[i := (b ! i) XOR (key ! (i mod k))]"
  have i: "i < length b" and ni: "i \<notin> set rest" and d: "distinct rest"
    and r: "\<forall>j \<in> set rest. j < length ?b"
    using Cons.prems by auto
  have g: "i mod k < length key" using assms(1,2) by (meson less_le_trans mod_less_divisor)
  from Cons.IH [OF d r] obtain b' where
    run: "xor_loop key k rest ?b = Inr b'" and len: "length b' = length ?b"
    and v: "\<forall>j < length ?b. b' ! j = (if j \<in> set rest then ?b ! j XOR key ! (j mod k) else ?b ! j)"
    by blast
  have "xor_loop key k (i # rest) b = Inr b'"
    using run i g assms(1) by simp
  moreover have "length b' = length b" using len by simp
  moreover have "\<forall>j < length b. b' ! j = (if j \<in> set (i # rest) then b ! j XOR key ! (j mod k) else b ! j)"
  proof (intro allI impI)
    fix j assume j: "j < length b"
    show "b' ! j = (if j \<in> set (i # rest) then b ! j XOR key ! (j mod k) else b ! j)"
    proof (cases "j = i")
      case True
      then show ?thesis using v j ni by simp
    next
      case False
      then show ?thesis using v j by simp
    qed
  qed
  ultimately show ?case by blast
qed

lemma xorCmd_ascii:
  assumes "ascii cmd" and "0 < k" and "k \<le> length key"
  shows "\<exists>b. xorCmd key k cmd = Inr b \<and> length b = length cmd
           \<and> (\<forall>j < length cmd. b ! j = of_nat (of_char (cmd ! j)) XOR key ! (j mod k))"
proof -
  have u: "utf8 cmd = map (\<lambda>c. of_nat (of_char c)) cmd" using assms(1) by (rule utf8_ascii)
  have "\<forall>i \<in> set [0..<length cmd]. i < length (utf8 cmd)" by (simp add: u)
  from xor_loop_result [OF assms(2,3) distinct_upt this]
  show ?thesis unfolding xorCmd_def by (auto simp: u)
qed

lemma keySearch_result:
  assumes "keySearch rnd cl cmd k tried c = Some (Inr (tried', k', key, c'))"
  shows "k < k' \<and> tried' = tried @ [Suc k..<Suc k'] \<and> key \<noteq> []
       \<and> (\<exists>c0 c1. genXorKey rnd c0 cl k' cmd = Inr (Some key, c1))"
proof -
  define P where "P = (\<lambda>(rnd :: tape) cl cmd k tried (c :: nat) (y :: py_error + (nat list \<times> nat \<times> byte list \<times> nat)).
        \<forall>tried' k' key (c' :: nat). y = Inr (tried', k', key, c') \<longrightarrow>
           k < k' \<and> tried' = tried @ [Suc k..<Suc k'] \<and> key \<noteq> []
           \<and> (\<exists>c0 c1. genXorKey rnd c0 cl k' cmd = Inr (Some key, c1)))"
  have "P rnd cl cmd k tried c (Inr (tried', k', key, c'))"
  proof (rule keySearch.raw_induct [where P = P, OF _ assms])
    fix f rnd cl cmd k tried c y
    assume IH: "\<And>rnd cl cmd k tried c y. f rnd cl cmd k tried c = Some y \<Longrightarrow> P rnd cl cmd k tried c y"
      and body: "(case genXorKey rnd c cl (Suc k) cmd of
                    Inl e \<Rightarrow> Some (Inl e)
                  | Inr (None, c') \<Rightarrow> f rnd cl cmd (Suc k) (tried @ [Suc k]) c'
                  | Inr (Some k', c') \<Rightarrow>
                      if k' = [] then f rnd cl cmd (Suc k) (tried @ [Suc k]) c'
                      else Some (Inr (tried @ [Suc k], Suc k, k', c'))) = Some y"
    show "P rnd cl cmd k tried c y"
      unfolding P_def
    proof (intro allI impI)
      fix tried' k' key c'
      assume y: "y = Inr (tried', k', key, c')"
      show "k < k' \<and> tried' = tried @ [Suc k..<Suc k'] \<and> key \<noteq> []
           \<and> (\<exists>c0 c1. genXorKey rnd c0 cl k' cmd = Inr (Some key, c1))"
      proof (cases "genXorKey rnd c cl (Suc k) cmd")
        case (Inl e)
        with body y show ?thesis by simp
      next
        case (Inr p)
        obtain r c1 where p: "p = (r, c1)" by (cases p)
        show ?thesis
        proof (cases "r = None \<or> r = Some []")
          case True
          with body Inr p have "f rnd cl cmd (Suc k) (tried @ [Suc k]) c1 = Some y"
            by auto
          from IH [OF this] y
          have "Suc k < k' \<and> tried' = (tried @ [Suc k]) @ [Suc (Suc k)..<Suc k'] \<and> key \<noteq> []
             \<and> (\<exists>c0 c1. genXorKey rnd c0 cl k' cmd = Inr (Some key, c1))"
            unfolding P_def by blast
          moreover have "Suc k < k' \<Longrightarrow> [Suc k..<Suc k'] = Suc k # [Suc (Suc k)..<Suc k']"
            by (simp add: upt_conv_Cons)
          ultimately show ?thesis by auto
        next
          case False
          then obtain key0 where r: "r = Some key0" and ne: "key0 \<noteq> []" by (cases r) auto
          with body Inr p y have "tried' = tried @ [Suc k]" "k' = Suc k" "key = key0" "c' = c1"
            by auto
          then show ?thesis using Inr p r ne by auto
        qed
      qed
    qed
  qed
  then show ?thesis unfolding P_def by blast
qed

text \<open>
  C3, as the code has it. \<open>charList\<close> is the allowed character set, a list without
  repetition. For every command, every key length and every outcome of the random draws,
  a key that \<open>genXorKey\<close> returns has at no position \<open>i\<close> the byte of a character of the
  stride \<open>userCmd[i::keyLen]\<close>, that is of \<open>userCmd[j]\<close> for a \<open>j\<close> with \<open>j mod keyLen = i\<close>.
  For a command of single-byte (ASCII) characters the bytes that \<open>mutate\<close> computes are
  \<open>userCmd[j] XOR key[j mod keyLen]\<close> at every position and none of them is zero.
\<close>

theorem XorNonNull_key_never_null:
  assumes "distinct charList"
  shows "(genXorKey rnd c charList keyLen userCmd = Inr (Some xorKeyBytes, c') \<longrightarrow>
            (\<forall>i < keyLen. chr (xorKeyBytes ! i) \<notin> set (stride i keyLen userCmd))
          \<and> (\<forall>i < keyLen. \<forall>j < length userCmd. j mod keyLen = i \<longrightarrow>
                 chr (xorKeyBytes ! i) \<noteq> userCmd ! j))
       \<and> (ascii userCmd
          \<and> XorNonNull_cipher rnd c charList pref userCmd
               = Some (Inr (tried, keyLen, xorKeyBytes, cmdBytes)) \<longrightarrow>
            length cmdBytes = length userCmd
          \<and> (\<forall>j < length userCmd.
                 cmdBytes ! j = of_nat (of_char (userCmd ! j)) XOR xorKeyBytes ! (j mod keyLen))
          \<and> 0 \<notin> set cmdBytes)"
proof (intro conjI impI)
  assume g: "genXorKey rnd c charList keyLen userCmd = Inr (Some xorKeyBytes, c')"
  show s: "\<forall>i < keyLen. chr (xorKeyBytes ! i) \<notin> set (stride i keyLen userCmd)"
    using genXorKey_inv [OF g assms] .
  show "\<forall>i < keyLen. \<forall>j < length userCmd. j mod keyLen = i \<longrightarrow>
                 chr (xorKeyBytes ! i) \<noteq> userCmd ! j"
  proof (intro allI impI)
    fix i j assume i: "i < keyLen" and j: "j < length userCmd" and m: "j mod keyLen = i"
    have "userCmd ! j \<in> set (stride (j mod keyLen) keyLen userCmd)"
      using j i by (intro nth_in_stride) auto
    then show "chr (xorKeyBytes ! i) \<noteq> userCmd ! j" using s i m by auto
  qed
next
  assume a: "ascii userCmd
          \<and> XorNonNull_cipher rnd c charList pref userCmd
               = Some (Inr (tried, keyLen, xorKeyBytes, cmdBytes))"
  then have asc: "ascii userCmd" by simp
  from a obtain k0 c1 where
    ks: "keySearch rnd charList userCmd k0 [] c = Some (Inr (tried, keyLen, xorKeyBytes, c1))"
    and x: "xorCmd xorKeyBytes keyLen userCmd = Inr cmdBytes"
    by (auto simp: XorNonNull_cipher_def split: sum.splits option.splits prod.splits)
  from keySearch_result [OF ks] obtain c0 c2 where
    pos: "0 < keyLen" and g: "genXorKey rnd c0 charList keyLen userCmd = Inr (Some xorKeyBytes, c2)"
    by auto
  have len: "keyLen \<le> length xorKeyBytes" using genXorKey_length [OF g assms] .
  from xorCmd_ascii [OF asc pos len] x
  have l: "length cmdBytes = length userCmd"
    and v: "\<forall>j < length userCmd.
                 cmdBytes ! j = of_nat (of_char (userCmd ! j)) XOR xorKeyBytes ! (j mod keyLen)"
    by auto
  have "cmdBytes ! j \<noteq> 0" if j: "j < length userCmd" for j
  proof
    assume "cmdBytes ! j = 0"
    then have "of_nat (of_char (userCmd ! j)) XOR xorKeyBytes ! (j mod keyLen) = 0"
      using v j by simp
    then have "xorKeyBytes ! (j mod keyLen) = of_nat (of_char (userCmd ! j))"
      by (simp add: xor_zero_iff)
    then have "chr (xorKeyBytes ! (j mod keyLen)) = userCmd ! j" by (simp add: chr_of_char)
    moreover have "userCmd ! j \<in> set (stride (j mod keyLen) keyLen userCmd)"
      using j pos by (rule nth_in_stride)
    moreover have "j mod keyLen < keyLen" using pos by simp
    ultimately show False using genXorKey_inv [OF g assms] by auto
  qed
  then have z: "0 \<notin> set cmdBytes" using l by (auto simp: in_set_conv_nth)
  show "length cmdBytes = length userCmd" by (rule l)
  show "\<forall>j < length userCmd.
                 cmdBytes ! j = of_nat (of_char (userCmd ! j)) XOR xorKeyBytes ! (j mod keyLen)"
    by (rule v)
  show "0 \<notin> set cmdBytes" by (rule z)
qed

theorem XorNonNull_key_never_null_witness:
  "distinct ''abc''
   \<and> genXorKey (\<lambda>_. 0) 0 ''abc'' 2 ''ls -la'' = Inr (Some [97, 98], 4)
   \<and> ascii ''ls -la''
   \<and> XorNonNull_cipher (\<lambda>_. 0) 0 ''abc'' 1 ''ls -la''
        = Some (Inr ([2], 2, [97, 98], [13, 17, 65, 79, 13, 3]))
   \<and> chr ([97, 98] ! 0) \<notin> set (stride 0 2 ''ls -la'')
   \<and> chr ([97, 98] ! 1) \<notin> set (stride 1 2 ''ls -la'')
   \<and> (0 :: byte) \<notin> set [13, 17, 65, 79, 13, 3]"
proof -
  have d: "distinct ''abc''" by simp
  have g: "genXorKey (\<lambda>_. 0) 0 ''abc'' 2 ''ls -la'' = Inr (Some [97, 98], 4)" by code_simp
  have a: "ascii ''ls -la''" by (simp add: ascii_def)
  have x: "XorNonNull_cipher (\<lambda>_. 0) 0 ''abc'' 1 ''ls -la''
        = Some (Inr ([2], 2, [97, 98], [13, 17, 65, 79, 13, 3]))" by code_simp
  note t = XorNonNull_key_never_null [OF d, where rnd = "\<lambda>_. 0" and c = 0 and keyLen = 2
      and userCmd = "''ls -la''" and xorKeyBytes = "[97, 98]" and c' = 4 and pref = 1
      and tried = "[2]" and cmdBytes = "[13, 17, 65, 79, 13, 3]"]
  from t [THEN conjunct1, THEN mp, OF g]
  have s: "\<forall>i < 2. chr ([97, 98] ! i) \<notin> set (stride i 2 ''ls -la'')" by (rule conjunct1)
  have s0: "chr ([97, 98] ! 0) \<notin> set (stride 0 2 ''ls -la'')"
    using s [THEN spec, of 0] by simp
  have s1: "chr ([97, 98] ! 1) \<notin> set (stride 1 2 ''ls -la'')"
    using s [THEN spec, of 1] by simp
  from t [THEN conjunct2, THEN mp, OF conjI [OF a x]]
  have z: "(0 :: byte) \<notin> set [13, 17, 65, 79, 13, 3]" by blast
  show ?thesis by (intro conjI d g a x s0 s1 z)
qed

text \<open>
  For a command with a character of two bytes the claim as the spec states it fails: the
  positions of the bytes are no longer the positions of the characters. On the command
  of the three characters U+00E9, \<open>a\<close>, \<open>b\<close>, with the letters and digits as the allowed
  characters and a tape that draws \<open>a\<close> and \<open>c\<close>, \<open>genXorKey\<close> returns the key \<open>ac\<close> at
  length 2: \<open>a\<close> is not in the stride of U+00E9 and \<open>b\<close>, \<open>c\<close> is not in the stride of
  \<open>a\<close>. The command is the four bytes c3 a9 61 62, and \<open>mutate\<close> XORs the third of them,
  the byte of \<open>a\<close>, with the key byte \<open>a\<close>: the result is a zero byte.
\<close>

theorem XorNonNull_key_never_null_counterexample:
  "distinct ''abcdefghijklmnopqrstuvwxyzABCDEFGHIJKLMNOPQRSTUVWXYZ0123456789''
   \<and> genXorKey (\<lambda>n. if n = 2 then 2 else 0) 0
         ''abcdefghijklmnopqrstuvwxyzABCDEFGHIJKLMNOPQRSTUVWXYZ0123456789'' 2
         [CHR 0xE9, CHR ''a'', CHR ''b''] = Inr (Some [97, 99], 3)
   \<and> XorNonNull_cipher (\<lambda>n. if n = 2 then 2 else 0) 0
         ''abcdefghijklmnopqrstuvwxyzABCDEFGHIJKLMNOPQRSTUVWXYZ0123456789'' 1
         [CHR 0xE9, CHR ''a'', CHR ''b'']
        = Some (Inr ([2], 2, [97, 99], [162, 202, 0, 98]))
   \<and> utf8 [CHR 0xE9, CHR ''a'', CHR ''b''] = [195, 169, 97, 98]
   \<and> [162, 202, 0, 98] ! 2 = (0 :: byte)"
  by code_simp

section \<open>XorNonNull: failed attempts and the end of the search\<close>

subsection \<open>A stride that uses the whole allowed set\<close>

lemma genXorKey_loop_None:
  assumes "distinct cl" and "ascii cl" and "set cl \<subseteq> set (stride i k cmd)"
    and "i \<in> set idxs" and "distinct idxs"
    and "\<forall>j \<in> set idxs. j < length key \<and> chr (key ! j) \<in> set cl"
  shows "\<exists>c'. genXorKey_loop rnd cl k cmd idxs key c = Inr (None, c')"
  using assms(4,5,6)
proof (induction idxs arbitrary: key c)
  case Nil
  then show ?case by simp
next
  case (Cons j rest)
  let ?nullchars = "stride j k cmd"
  let ?bl = "charBlackList cl ?nullchars"
  have len: "j < length key" and inset: "chr (key ! j) \<in> set cl"
    and d: "distinct rest" and nj: "j \<notin> set rest"
    using Cons.prems by auto
  show ?case
  proof (cases "chr (key ! j) \<in> set ?nullchars")
    case False
    then have "j \<noteq> i" using inset assms(3) by auto
    then have i: "i \<in> set rest" using Cons.prems(1) by simp
    have "\<forall>j' \<in> set rest. j' < length key \<and> chr (key ! j') \<in> set cl"
      using Cons.prems(3) by simp
    from Cons.IH [OF i d this] show ?thesis using False len by (simp add: Let_def)
  next
    case True
    show ?thesis
    proof (cases "?bl = []")
      case True
      then show ?thesis using \<open>chr (key ! j) \<in> set ?nullchars\<close> len by (simp add: Let_def)
    next
      case False
      then obtain ch where sel: "randSelect rnd c ?bl = Inr (ch, Suc c)" and ch: "ch \<in> set ?bl"
        using randSelect_in by blast
      have "set ?bl = set cl - set ?nullchars" using assms(1) by (rule charBlackList_set)
      then have "j \<noteq> i" using ch assms(3) by auto
      then have i: "i \<in> set rest" using Cons.prems(1) by simp
      have "ch \<in> set cl" using ch charBlackList_subset by blast
      then have "(of_char ch :: nat) < 128" using assms(2) by (simp add: ascii_mem)
      then have v: "int_from_bytes (utf8_char ch) = of_char ch" by (rule int_from_bytes_ascii)
      then have v256: "\<not> 256 \<le> int_from_bytes (utf8_char ch)"
        using \<open>(of_char ch :: nat) < 128\<close> by simp
      let ?key = "key[j := of_nat (int_from_bytes (utf8_char ch))]"
      have "\<forall>j' \<in> set rest. j' < length ?key \<and> chr (?key ! j') \<in> set cl"
        using Cons.prems(3) nj by (auto simp: nth_list_update)
      from Cons.IH [OF i d this, of "Suc c"] obtain c' where
        "genXorKey_loop rnd cl k cmd rest ?key (Suc c) = Inr (None, c')" by blast
      then show ?thesis
        using \<open>chr (key ! j) \<in> set ?nullchars\<close> False len sel v256 by (simp add: Let_def)
    qed
  qed
qed

lemma genXorKey_None:
  assumes "distinct cl" and "ascii cl" and "cl \<noteq> []" and "i < keyLen"
    and "set cl \<subseteq> set (stride i keyLen cmd)"
  shows "\<exists>c'. genXorKey rnd c cl keyLen cmd = Inr (None, c')"
proof -
  from randGenStr_fixed [of cl keyLen rnd c] assms(3) obtain s where
    r: "randGenStr rnd c cl keyLen keyLen = Inr (s, Suc c + keyLen)"
    and l: "length s = keyLen" and sub: "set s \<subseteq> set cl" by blast
  have "ascii s" using assms(2) sub by (rule ascii_subset)
  then have u: "utf8 s = map (\<lambda>c. of_nat (of_char c)) s" by (rule utf8_ascii)
  have "\<forall>j \<in> set [0..<keyLen]. j < length (utf8 s) \<and> chr (utf8 s ! j) \<in> set cl"
    using l sub by (auto simp: u chr_of_char)
  from genXorKey_loop_None [OF assms(1,2,5) _ distinct_upt this, of rnd "Suc c + keyLen"] assms(4)
  show ?thesis by (simp add: genXorKey_def r)
qed

subsection \<open>The key search ends\<close>

lemma genXorKey_loop_total:
  assumes "ascii cl" and "\<forall>j \<in> set idxs. j < length key"
  shows "\<exists>r c'. genXorKey_loop rnd cl k cmd idxs key c = Inr (r, c')
           \<and> (\<forall>key'. r = Some key' \<longrightarrow> length key' = length key)
           \<and> (r = None \<longrightarrow> (\<exists>j \<in> set idxs. length cl \<le> length (remdups (stride j k cmd))))"
  using assms(2)
proof (induction idxs arbitrary: key c)
  case Nil
  then show ?case by simp
next
  case (Cons j rest)
  let ?nullchars = "stride j k cmd"
  let ?bl = "charBlackList cl ?nullchars"
  have len: "j < length key" using Cons.prems by simp
  show ?case
  proof (cases "chr (key ! j) \<in> set ?nullchars")
    case False
    have "\<forall>j' \<in> set rest. j' < length key" using Cons.prems by simp
    from Cons.IH [OF this, of c] show ?thesis using False len by (auto simp: Let_def)
  next
    case True
    show ?thesis
    proof (cases "?bl = []")
      case True
      have "length cl - length (remdups ?nullchars) \<le> length ?bl"
        unfolding charBlackList_def by (rule fold_remove1_length)
      then have "length cl \<le> length (remdups ?nullchars)" using True by simp
      then show ?thesis
        using \<open>chr (key ! j) \<in> set ?nullchars\<close> True len by (simp add: Let_def)
    next
      case False
      then obtain ch where sel: "randSelect rnd c ?bl = Inr (ch, Suc c)" and ch: "ch \<in> set ?bl"
        using randSelect_in by blast
      have "ch \<in> set cl" using ch charBlackList_subset by blast
      then have a: "(of_char ch :: nat) < 128" using assms(1) by (simp add: ascii_mem)
      then have v: "int_from_bytes (utf8_char ch) = of_char ch" by (rule int_from_bytes_ascii)
      then have v256: "\<not> 256 \<le> int_from_bytes (utf8_char ch)" using a by simp
      let ?key = "key[j := of_nat (int_from_bytes (utf8_char ch))]"
      have "\<forall>j' \<in> set rest. j' < length ?key" using Cons.prems by simp
      from Cons.IH [OF this, of "Suc c"] obtain r c' where
        run: "genXorKey_loop rnd cl k cmd rest ?key (Suc c) = Inr (r, c')"
        and 1: "\<forall>key'. r = Some key' \<longrightarrow> length key' = length ?key"
        and 2: "r = None \<longrightarrow> (\<exists>j \<in> set rest. length cl \<le> length (remdups (stride j k cmd)))"
        by blast
      have "genXorKey_loop rnd cl k cmd (j # rest) key c = Inr (r, c')"
        using \<open>chr (key ! j) \<in> set ?nullchars\<close> False len sel v256 run by (simp add: Let_def)
      then show ?thesis using 1 2 by auto
    qed
  qed
qed

lemma stride_short:
  assumes "length cmd \<le> k"
  shows "length (stride i k cmd) \<le> 1"
proof -
  have "filter (\<lambda>j. (j - i) mod k = 0) [i..<length cmd] = filter (\<lambda>j. j = i) [i..<length cmd]"
  proof (rule filter_cong [OF refl])
    fix j assume "j \<in> set [i..<length cmd]"
    then have "j - i < k" and "i \<le> j" using assms by auto
    then show "((j - i) mod k = 0) = (j = i)" by auto
  qed
  also have "\<dots> = (if i < length cmd then [i] else [])"
    by (auto simp: upt_conv_Cons filter_empty_conv)
  finally show ?thesis by (simp add: stride_def)
qed

lemma genXorKey_total:
  assumes "ascii cl" and "cl \<noteq> []"
  shows "\<exists>r c'. genXorKey rnd c cl keyLen cmd = Inr (r, c')
           \<and> (\<forall>key. r = Some key \<longrightarrow> length key = keyLen)
           \<and> (r = None \<longrightarrow> (\<exists>j < keyLen. length cl \<le> length (remdups (stride j keyLen cmd))))"
proof -
  from randGenStr_fixed [of cl keyLen rnd c] assms(2) obtain s where
    r: "randGenStr rnd c cl keyLen keyLen = Inr (s, Suc c + keyLen)"
    and l: "length s = keyLen" and sub: "set s \<subseteq> set cl" by blast
  have "ascii s" using assms(1) sub by (rule ascii_subset)
  then have u: "utf8 s = map (\<lambda>c. of_nat (of_char c)) s" by (rule utf8_ascii)
  have "\<forall>j \<in> set [0..<keyLen]. j < length (utf8 s)" using l by (simp add: u)
  from genXorKey_loop_total [OF assms(1) this, of rnd keyLen cmd "Suc c + keyLen"]
  show ?thesis using l by (auto simp: genXorKey_def r u)
qed

lemma genXorKey_long_key:
  assumes "ascii cl" and "2 \<le> length cl" and "length cmd \<le> keyLen"
  shows "\<exists>key c'. genXorKey rnd c cl keyLen cmd = Inr (Some key, c') \<and> length key = keyLen"
proof -
  have ne: "cl \<noteq> []" using assms(2) by auto
  from genXorKey_total [OF assms(1) ne, of rnd c keyLen cmd] obtain r c' where
    g: "genXorKey rnd c cl keyLen cmd = Inr (r, c')"
    and 1: "\<forall>key. r = Some key \<longrightarrow> length key = keyLen"
    and 2: "r = None \<longrightarrow> (\<exists>j < keyLen. length cl \<le> length (remdups (stride j keyLen cmd)))"
    by blast
  have "length (remdups (stride j keyLen cmd)) \<le> 1" for j
    using stride_short [OF assms(3), of j] length_remdups_leq [of "stride j keyLen cmd"]
    by linarith
  then have "r \<noteq> None" using 2 assms(2) by (metis One_nat_def Suc_1 le_trans not_less_eq_eq)
  then show ?thesis using g 1 by (cases r) auto
qed

lemma keySearch_terminates_aux:
  assumes "ascii cl" and "2 \<le> length cl"
  shows "\<exists>keyLen' key c'.
           keySearch rnd cl cmd keyLen tried c
             = Some (Inr (tried @ [Suc keyLen..<Suc keyLen'], keyLen', key, c'))
         \<and> keyLen < keyLen' \<and> keyLen' \<le> max (Suc keyLen) (length cmd) \<and> length key = keyLen'"
proof (induction "length cmd - Suc keyLen" arbitrary: keyLen tried c)
  case 0
  then have "length cmd \<le> Suc keyLen" by simp
  from genXorKey_long_key [OF assms this, of rnd c] obtain key c' where
    g: "genXorKey rnd c cl (Suc keyLen) cmd = Inr (Some key, c')" and l: "length key = Suc keyLen"
    by blast
  then have "key \<noteq> []" by auto
  then have "keySearch rnd cl cmd keyLen tried c
         = Some (Inr (tried @ [Suc keyLen..<Suc (Suc keyLen)], Suc keyLen, key, c'))"
    using g by (subst keySearch.simps) simp
  then show ?case using l by (intro exI [of _ "Suc keyLen"] exI [of _ key] exI [of _ c']) simp
next
  case (Suc m)
  have ne: "cl \<noteq> []" using assms(2) by auto
  from genXorKey_total [OF assms(1) ne, of rnd c "Suc keyLen" cmd] obtain r c1 where
    g: "genXorKey rnd c cl (Suc keyLen) cmd = Inr (r, c1)"
    and 1: "\<forall>key. r = Some key \<longrightarrow> length key = Suc keyLen"
    by blast
  show ?case
  proof (cases r)
    case (Some key)
    then have l: "length key = Suc keyLen" using 1 by simp
    then have "key \<noteq> []" by auto
    then have "keySearch rnd cl cmd keyLen tried c
         = Some (Inr (tried @ [Suc keyLen..<Suc (Suc keyLen)], Suc keyLen, key, c1))"
      using g Some by (subst keySearch.simps) simp
    then show ?thesis using l by (intro exI [of _ "Suc keyLen"] exI [of _ key] exI [of _ c1]) simp
  next
    case None
    have m: "m = length cmd - Suc (Suc keyLen)" using Suc.hyps(2) by simp
    from Suc.hyps(1) [OF m, of "tried @ [Suc keyLen]" c1] obtain k' key c' where
      run: "keySearch rnd cl cmd (Suc keyLen) (tried @ [Suc keyLen]) c1
             = Some (Inr ((tried @ [Suc keyLen]) @ [Suc (Suc keyLen)..<Suc k'], k', key, c'))"
      and lt: "Suc keyLen < k'" and le: "k' \<le> max (Suc (Suc keyLen)) (length cmd)"
      and l: "length key = k'"
      by blast
    have e: "(tried @ [Suc keyLen]) @ [Suc (Suc keyLen)..<Suc k'] = tried @ [Suc keyLen..<Suc k']"
      using lt by (simp add: upt_conv_Cons)
    have "keySearch rnd cl cmd keyLen tried c
            = keySearch rnd cl cmd (Suc keyLen) (tried @ [Suc keyLen]) c1"
      using g None by (subst keySearch.simps) simp
    then have "keySearch rnd cl cmd keyLen tried c
            = Some (Inr (tried @ [Suc keyLen..<Suc k'], k', key, c'))"
      using run e by simp
    moreover have "k' \<le> max (Suc keyLen) (length cmd)" using le Suc.hyps(2) by auto
    ultimately show ?thesis using lt l
      by (intro exI [of _ k'] exI [of _ key] exI [of _ c']) simp
  qed
qed

lemma xorCmd_total:
  assumes "0 < k" and "k \<le> length key"
  shows "\<exists>b. xorCmd key k cmd = Inr b"
proof -
  have "\<forall>i \<in> set [0..<length cmd]. i < length (utf8 cmd)"
    using length_utf8 [of cmd] by auto
  from xor_loop_result [OF assms distinct_upt this] show ?thesis
    unfolding xorCmd_def by blast
qed

lemma sorted_upt_less: "sorted_wrt (<) [a..<b]"
  by (rule sorted_wrt_upt)

lemma keySearch_retry:
  assumes "genXorKey rnd c0 cl (Suc k) cmd = Inr (None, c1)"
  shows "keySearch rnd cl cmd k tried c0 =
           (case genXorKey rnd c1 cl (Suc (Suc k)) cmd of
              Inl e \<Rightarrow> Some (Inl e)
            | Inr (r, c2) \<Rightarrow>
                (case r of
                   None \<Rightarrow> keySearch rnd cl cmd (Suc (Suc k)) (tried @ [Suc k, Suc (Suc k)]) c2
                 | Some key \<Rightarrow>
                     if key = [] then keySearch rnd cl cmd (Suc (Suc k)) (tried @ [Suc k, Suc (Suc k)]) c2
                     else Some (Inr (tried @ [Suc k, Suc (Suc k)], Suc (Suc k), key, c2))))"
proof -
  have "keySearch rnd cl cmd k tried c0 = keySearch rnd cl cmd (Suc k) (tried @ [Suc k]) c1"
    using assms by (subst keySearch.simps) simp
  also have "\<dots> = (case genXorKey rnd c1 cl (Suc (Suc k)) cmd of
              Inl e \<Rightarrow> Some (Inl e)
            | Inr (r, c2) \<Rightarrow>
                (case r of
                   None \<Rightarrow> keySearch rnd cl cmd (Suc (Suc k)) (tried @ [Suc k, Suc (Suc k)]) c2
                 | Some key \<Rightarrow>
                     if key = [] then keySearch rnd cl cmd (Suc (Suc k)) (tried @ [Suc k, Suc (Suc k)]) c2
                     else Some (Inr (tried @ [Suc k, Suc (Suc k)], Suc (Suc k), key, c2))))"
    by (subst keySearch.simps) (simp split: sum.split prod.split option.split)
  finally show ?thesis .
qed

text \<open>
  C7. \<open>charList\<close> is the allowed character set, a nonempty list of single-byte characters
  without repetition, and \<open>k + 1\<close> a key length. If at some key position the characters of
  the stride include every allowed character (so also when they are exactly the allowed
  set), \<open>genXorKey\<close> returns \<open>None\<close> at the length \<open>k + 1\<close> and raises nothing, whatever the
  random draws. The loop of \<open>mutate\<close> that made this call with \<open>keyLen = k\<close> then calls
  \<open>genXorKey\<close> at the length \<open>k + 2\<close>, from the state of the random generator that the failed
  call left: if that call returns a key, the loop ends with this key, the length \<open>k + 2\<close> and
  the attempts \<open>k + 1, k + 2\<close>; if it raises, the loop raises; if it returns \<open>None\<close>, the
  loop goes on from \<open>k + 2\<close>. With at least two allowed characters the loop ends with a
  key of a length above \<open>k + 1\<close> and at most \<open>len(userCmd)\<close>, the attempts being
  \<open>k + 1, k + 2, ...\<close> up to that length. And whatever the reason of a \<open>None\<close> at a length
  \<open>k' + 1\<close>, a key returned by the next call, at \<open>k' + 2\<close>, is the key the loop ends with.
\<close>

theorem genXorKey_full_stride_None:
  assumes "distinct charList" and "ascii charList" and "charList \<noteq> []" and "i < Suc k"
    and "set charList \<subseteq> set (stride i (Suc k) userCmd)"
  shows "(\<exists>c1. genXorKey rnd c charList (Suc k) userCmd = Inr (None, c1)
          \<and> (\<forall>key c2. genXorKey rnd c1 charList (Suc (Suc k)) userCmd = Inr (Some key, c2) \<longrightarrow>
                keySearch rnd charList userCmd k tried c
                  = Some (Inr (tried @ [Suc k, Suc (Suc k)], Suc (Suc k), key, c2)))
          \<and> (\<forall>e. genXorKey rnd c1 charList (Suc (Suc k)) userCmd = Inl e \<longrightarrow>
                keySearch rnd charList userCmd k tried c = Some (Inl e))
          \<and> (\<forall>c2. genXorKey rnd c1 charList (Suc (Suc k)) userCmd = Inr (None, c2) \<longrightarrow>
                keySearch rnd charList userCmd k tried c
                  = keySearch rnd charList userCmd (Suc (Suc k)) (tried @ [Suc k, Suc (Suc k)]) c2)
          \<and> (2 \<le> length charList \<longrightarrow>
                (\<exists>keyLen' key c'.
                    keySearch rnd charList userCmd k tried c
                      = Some (Inr (tried @ [Suc k..<Suc keyLen'], keyLen', key, c'))
                  \<and> Suc k < keyLen' \<and> keyLen' \<le> length userCmd \<and> length key = keyLen')))
       \<and> (\<forall>k' tried' c0 c1 key c2.
              genXorKey rnd c0 charList (Suc k') userCmd = Inr (None, c1)
            \<and> genXorKey rnd c1 charList (Suc (Suc k')) userCmd = Inr (Some key, c2) \<longrightarrow>
              keySearch rnd charList userCmd k' tried' c0
                = Some (Inr (tried' @ [Suc k', Suc (Suc k')], Suc (Suc k'), key, c2)))"
proof -
  from genXorKey_None [OF assms, of rnd c] obtain c1 where
    g: "genXorKey rnd c charList (Suc k) userCmd = Inr (None, c1)" by blast
  note r = keySearch_retry [OF g, of tried]
  have key_len: "key \<noteq> []" if "genXorKey rnd c1 charList (Suc (Suc k)) userCmd = Inr (Some key, c2)"
    for key c2
  proof -
    from genXorKey_total [OF assms(2,3), of rnd c1 "Suc (Suc k)" userCmd] that
    have "length key = Suc (Suc k)" by auto
    then show ?thesis by auto
  qed
  have 1: "\<forall>key c2. genXorKey rnd c1 charList (Suc (Suc k)) userCmd = Inr (Some key, c2) \<longrightarrow>
                keySearch rnd charList userCmd k tried c
                  = Some (Inr (tried @ [Suc k, Suc (Suc k)], Suc (Suc k), key, c2))"
    using r key_len by auto
  have 2: "\<forall>e. genXorKey rnd c1 charList (Suc (Suc k)) userCmd = Inl e \<longrightarrow>
                keySearch rnd charList userCmd k tried c = Some (Inl e)"
    using r by auto
  have 3: "\<forall>c2. genXorKey rnd c1 charList (Suc (Suc k)) userCmd = Inr (None, c2) \<longrightarrow>
                keySearch rnd charList userCmd k tried c
                  = keySearch rnd charList userCmd (Suc (Suc k)) (tried @ [Suc k, Suc (Suc k)]) c2"
    using r by auto
  have 4: "2 \<le> length charList \<longrightarrow>
                (\<exists>keyLen' key c'.
                    keySearch rnd charList userCmd k tried c
                      = Some (Inr (tried @ [Suc k..<Suc keyLen'], keyLen', key, c'))
                  \<and> Suc k < keyLen' \<and> keyLen' \<le> length userCmd \<and> length key = keyLen')"
  proof
    assume two: "2 \<le> length charList"
    from keySearch_terminates_aux [OF assms(2) two, of rnd userCmd "Suc k" "tried @ [Suc k]" c1]
    obtain k' key c' where
      run: "keySearch rnd charList userCmd (Suc k) (tried @ [Suc k]) c1
             = Some (Inr ((tried @ [Suc k]) @ [Suc (Suc k)..<Suc k'], k', key, c'))"
      and lt: "Suc k < k'" and le: "k' \<le> max (Suc (Suc k)) (length userCmd)"
      and l: "length key = k'" by blast
    have e: "(tried @ [Suc k]) @ [Suc (Suc k)..<Suc k'] = tried @ [Suc k..<Suc k']"
      using lt by (simp add: upt_conv_Cons)
    have s: "keySearch rnd charList userCmd k tried c
            = keySearch rnd charList userCmd (Suc k) (tried @ [Suc k]) c1"
      using g by (subst keySearch.simps) simp
    have full: "Suc (Suc k) \<le> length userCmd"
    proof (rule ccontr)
      assume "\<not> Suc (Suc k) \<le> length userCmd"
      then have "length userCmd \<le> Suc k" by simp
      then have "length (stride i (Suc k) userCmd) \<le> 1" by (rule stride_short)
      moreover have "card (set charList) \<le> card (set (stride i (Suc k) userCmd))"
        using assms(5) by (intro card_mono) simp_all
      moreover have "card (set charList) = length charList" using assms(1) by (rule distinct_card)
      moreover have "card (set (stride i (Suc k) userCmd)) \<le> length (stride i (Suc k) userCmd)"
        by (rule card_length)
      ultimately show False using two by simp
    qed
    have le': "k' \<le> length userCmd" using le full by simp
    show "\<exists>keyLen' key c'.
                    keySearch rnd charList userCmd k tried c
                      = Some (Inr (tried @ [Suc k..<Suc keyLen'], keyLen', key, c'))
                  \<and> Suc k < keyLen' \<and> keyLen' \<le> length userCmd \<and> length key = keyLen'"
      using s run e lt le' l by (intro exI [of _ k'] exI [of _ key] exI [of _ c']) simp
  qed
  have special: "\<exists>c1. genXorKey rnd c charList (Suc k) userCmd = Inr (None, c1)
          \<and> (\<forall>key c2. genXorKey rnd c1 charList (Suc (Suc k)) userCmd = Inr (Some key, c2) \<longrightarrow>
                keySearch rnd charList userCmd k tried c
                  = Some (Inr (tried @ [Suc k, Suc (Suc k)], Suc (Suc k), key, c2)))
          \<and> (\<forall>e. genXorKey rnd c1 charList (Suc (Suc k)) userCmd = Inl e \<longrightarrow>
                keySearch rnd charList userCmd k tried c = Some (Inl e))
          \<and> (\<forall>c2. genXorKey rnd c1 charList (Suc (Suc k)) userCmd = Inr (None, c2) \<longrightarrow>
                keySearch rnd charList userCmd k tried c
                  = keySearch rnd charList userCmd (Suc (Suc k)) (tried @ [Suc k, Suc (Suc k)]) c2)
          \<and> (2 \<le> length charList \<longrightarrow>
                (\<exists>keyLen' key c'.
                    keySearch rnd charList userCmd k tried c
                      = Some (Inr (tried @ [Suc k..<Suc keyLen'], keyLen', key, c'))
                  \<and> Suc k < keyLen' \<and> keyLen' \<le> length userCmd \<and> length key = keyLen'))"
    using g 1 2 3 4 by (intro exI [of _ c1] conjI)
  have general: "\<forall>k' tried' c0 c1 key c2.
              genXorKey rnd c0 charList (Suc k') userCmd = Inr (None, c1)
            \<and> genXorKey rnd c1 charList (Suc (Suc k')) userCmd = Inr (Some key, c2) \<longrightarrow>
              keySearch rnd charList userCmd k' tried' c0
                = Some (Inr (tried' @ [Suc k', Suc (Suc k')], Suc (Suc k'), key, c2))"
  proof (intro allI impI)
    fix k' tried' c0 c1 key c2
    assume h: "genXorKey rnd c0 charList (Suc k') userCmd = Inr (None, c1)
            \<and> genXorKey rnd c1 charList (Suc (Suc k')) userCmd = Inr (Some key, c2)"
    from genXorKey_total [OF assms(2,3), of rnd c1 "Suc (Suc k')" userCmd] h
    have "length key = Suc (Suc k')" by auto
    then have "key \<noteq> []" by auto
    then show "keySearch rnd charList userCmd k' tried' c0
                = Some (Inr (tried' @ [Suc k', Suc (Suc k')], Suc (Suc k'), key, c2))"
      using keySearch_retry [of rnd c0 charList k' userCmd c1 tried'] h by simp
  qed
  show ?thesis by (intro conjI special general)
qed

theorem genXorKey_full_stride_None_witness:
  "distinct ''ab'' \<and> ascii ''ab'' \<and> ''ab'' \<noteq> [] \<and> (0::nat) < Suc 0
   \<and> set ''ab'' \<subseteq> set (stride 0 (Suc 0) ''ab'')
   \<and> genXorKey (\<lambda>_. 0) 0 ''ab'' 1 ''ab'' = Inr (None, 2)
   \<and> genXorKey (\<lambda>_. 0) 2 ''ab'' 2 ''ab'' = Inr (Some [98, 97], 6)
   \<and> keySearch (\<lambda>_. 0) ''ab'' ''ab'' 0 [] 0 = Some (Inr ([1, 2], 2, [98, 97], 6))"
proof -
  have a: "distinct ''ab''" by simp
  have b: "ascii ''ab''" by (simp add: ascii_def)
  have c: "''ab'' \<noteq> []" by simp
  have d: "(0::nat) < Suc 0" by simp
  have e: "set ''ab'' \<subseteq> set (stride 0 (Suc 0) ''ab'')" by (simp add: stride_def upt_conv_Cons)
  have g1: "genXorKey (\<lambda>_. 0) 0 ''ab'' 1 ''ab'' = Inr (None, 2)" by code_simp
  have g2: "genXorKey (\<lambda>_. 0) 2 ''ab'' 2 ''ab'' = Inr (Some [98, 97], 6)" by code_simp
  from genXorKey_full_stride_None [OF a b c d e, where rnd = "\<lambda>_. 0" and c = 0
      and tried = "[]", THEN conjunct1]
  obtain c1 where
    n: "genXorKey (\<lambda>_. 0) 0 ''ab'' (Suc 0) ''ab'' = Inr (None, c1)"
    and r: "\<forall>key c2. genXorKey (\<lambda>_. 0) c1 ''ab'' (Suc (Suc 0)) ''ab'' = Inr (Some key, c2) \<longrightarrow>
                keySearch (\<lambda>_. 0) ''ab'' ''ab'' 0 [] 0
                  = Some (Inr ([] @ [Suc 0, Suc (Suc 0)], Suc (Suc 0), key, c2))"
    by blast
  have c1: "c1 = 2" using n g1 by simp
  have g2': "genXorKey (\<lambda>_. 0) c1 ''ab'' (Suc (Suc 0)) ''ab'' = Inr (Some [98, 97], 6)"
    using g2 c1 by (simp add: numeral_2_eq_2)
  have "keySearch (\<lambda>_. 0) ''ab'' ''ab'' 0 [] 0
                  = Some (Inr ([] @ [Suc 0, Suc (Suc 0)], Suc (Suc 0), [98, 97], 6))"
    using r [THEN spec, THEN spec, THEN mp, OF g2'] .
  then have k: "keySearch (\<lambda>_. 0) ''ab'' ''ab'' 0 [] 0 = Some (Inr ([1, 2], 2, [98, 97], 6))"
    by (simp add: numeral_2_eq_2)
  show ?thesis by (intro conjI a b c d e g1 g2 k)
qed

text \<open>
  C8. \<open>charList\<close> is the allowed character set, at least two single-byte characters. For
  every command (so for every command drawn from the allowed set), every starting value
  of \<open>keyLen\<close> and every outcome of the random draws, the loop of \<open>mutate\<close> ends with a key:
  the lengths it tried are \<open>keyLen + 1, keyLen + 2, ...\<close> up to the final length, strictly
  increasing, the final length is at most the larger of \<open>keyLen + 1\<close> and \<open>len(userCmd)\<close>,
  and the key has that length. With a size preference of 1, 2 or 3, \<open>mutate\<close> reaches the
  end of its XOR loop.
\<close>

theorem keySearch_terminates:
  assumes "ascii charList" and "2 \<le> length charList"
  shows "(\<exists>keyLen' xorKeyBytes c'.
            keySearch rnd charList userCmd keyLen tried c
              = Some (Inr (tried @ [Suc keyLen..<Suc keyLen'], keyLen', xorKeyBytes, c'))
          \<and> keyLen < keyLen' \<and> keyLen' \<le> max (Suc keyLen) (length userCmd)
          \<and> length xorKeyBytes = keyLen' \<and> sorted_wrt (<) [Suc keyLen..<Suc keyLen'])
       \<and> (pref = 1 \<or> pref = 2 \<or> pref = 3 \<longrightarrow>
            (\<exists>attempts keyLen' xorKeyBytes cmdBytes.
               XorNonNull_cipher rnd c charList pref userCmd
                 = Some (Inr (attempts, keyLen', xorKeyBytes, cmdBytes))
             \<and> sorted_wrt (<) attempts \<and> attempts \<noteq> [] \<and> last attempts = keyLen'
             \<and> length xorKeyBytes = keyLen'))"
proof
  from keySearch_terminates_aux [OF assms, of rnd userCmd keyLen tried c]
  show "\<exists>keyLen' xorKeyBytes c'.
            keySearch rnd charList userCmd keyLen tried c
              = Some (Inr (tried @ [Suc keyLen..<Suc keyLen'], keyLen', xorKeyBytes, c'))
          \<and> keyLen < keyLen' \<and> keyLen' \<le> max (Suc keyLen) (length userCmd)
          \<and> length xorKeyBytes = keyLen' \<and> sorted_wrt (<) [Suc keyLen..<Suc keyLen']"
    using sorted_upt_less by blast
  show "pref = 1 \<or> pref = 2 \<or> pref = 3 \<longrightarrow>
            (\<exists>attempts keyLen' xorKeyBytes cmdBytes.
               XorNonNull_cipher rnd c charList pref userCmd
                 = Some (Inr (attempts, keyLen', xorKeyBytes, cmdBytes))
             \<and> sorted_wrt (<) attempts \<and> attempts \<noteq> [] \<and> last attempts = keyLen'
             \<and> length xorKeyBytes = keyLen')"
  proof
    assume "pref = 1 \<or> pref = 2 \<or> pref = 3"
    then obtain k0 where i: "initKeyLen pref userCmd = Inr k0"
      by (auto simp: initKeyLen_def)
    from keySearch_terminates_aux [OF assms, of rnd userCmd k0 "[]" c] obtain k' key c' where
      ks: "keySearch rnd charList userCmd k0 [] c = Some (Inr ([] @ [Suc k0..<Suc k'], k', key, c'))"
      and lt: "k0 < k'" and l: "length key = k'" by blast
    have "0 < k'" using lt by simp
    moreover have "k' \<le> length key" using l by simp
    ultimately obtain b where x: "xorCmd key k' userCmd = Inr b"
      using xorCmd_total by blast
    have run: "XorNonNull_cipher rnd c charList pref userCmd = Some (Inr ([Suc k0..<Suc k'], k', key, b))"
      using i ks x by (simp add: XorNonNull_cipher_def)
    have ne: "[Suc k0..<Suc k'] \<noteq> []" using lt by simp
    have "last [Suc k0..<Suc k'] = k'" using lt by simp
    then show "\<exists>attempts keyLen' xorKeyBytes cmdBytes.
               XorNonNull_cipher rnd c charList pref userCmd
                 = Some (Inr (attempts, keyLen', xorKeyBytes, cmdBytes))
             \<and> sorted_wrt (<) attempts \<and> attempts \<noteq> [] \<and> last attempts = keyLen'
             \<and> length xorKeyBytes = keyLen'"
      using run ne l sorted_upt_less by blast
  qed
qed

theorem keySearch_terminates_witness:
  "ascii ''ab'' \<and> 2 \<le> length ''ab''
   \<and> keySearch (\<lambda>_. 0) ''ab'' ''abab'' 0 [] 0 = Some (Inr ([1, 2], 2, [98, 97], 6))
   \<and> (\<exists>keyLen' xorKeyBytes c'.
            keySearch (\<lambda>_. 0) ''ab'' ''abab'' 0 [] 0
              = Some (Inr ([] @ [Suc 0..<Suc keyLen'], keyLen', xorKeyBytes, c'))
          \<and> 0 < keyLen' \<and> keyLen' \<le> max (Suc 0) (length ''abab'')
          \<and> length xorKeyBytes = keyLen' \<and> sorted_wrt (<) [Suc 0..<Suc keyLen'])"
proof -
  have a: "ascii ''ab''" by (simp add: ascii_def)
  have b: "2 \<le> length ''ab''" by simp
  have e: "keySearch (\<lambda>_. 0) ''ab'' ''abab'' 0 [] 0 = Some (Inr ([1, 2], 2, [98, 97], 6))"
    by code_simp
  note t = keySearch_terminates [OF a b, where rnd = "\<lambda>_. 0"
      and userCmd = "''abab''" and keyLen = 0 and tried = "[]" and c = 0, THEN conjunct1]
  show ?thesis by (intro conjI a b e t)
qed

section \<open>XorNonNull: the initial key length\<close>

lemma floor_div_nat: "\<lfloor>real n / real k\<rfloor> = int (n div k)"
  by (rule floor_divide_of_nat_eq)

text \<open>
  C5, as the code has it. \<open>mutate\<close> sets \<open>keyLen\<close> to \<open>\<lfloor>len / 100\<rfloor> + 1\<close> for size preference
  1, to \<open>\<lfloor>len / 10\<rfloor> + 1\<close> for 2 and to \<open>len\<close> for 3. The loop adds 1 to \<open>keyLen\<close> before
  every call of \<open>genXorKey\<close>, the first one too: whenever \<open>mutate\<close> gets a key, the lengths
  tried are the initial value plus 1, plus 2, and so on up to the final length. For the
  command \<open>ls -la\<close> and size preference 1 the initial value is 1 and the first length tried
  is 2.
\<close>

theorem XorNonNull_initial_key_length:
  "initKeyLen 1 userCmd = Inr (length userCmd div 100 + 1)
   \<and> initKeyLen 2 userCmd = Inr (length userCmd div 10 + 1)
   \<and> initKeyLen 3 userCmd = Inr (length userCmd)
   \<and> int (length userCmd div 100 + 1) = \<lfloor>real (length userCmd) / 100\<rfloor> + 1
   \<and> int (length userCmd div 10 + 1) = \<lfloor>real (length userCmd) / 10\<rfloor> + 1
   \<and> (\<forall>tried keyLen key cmdBytes.
         XorNonNull_cipher rnd c charList pref userCmd = Some (Inr (tried, keyLen, key, cmdBytes)) \<longrightarrow>
           (\<exists>keyLen0. initKeyLen pref userCmd = Inr keyLen0 \<and> tried = [Suc keyLen0..<Suc keyLen]
                     \<and> keyLen0 < keyLen \<and> hd tried = Suc keyLen0))
   \<and> initKeyLen 1 ''ls -la'' = Inr 1
   \<and> (\<forall>tried keyLen key cmdBytes.
         XorNonNull_cipher rnd c charList 1 ''ls -la'' = Some (Inr (tried, keyLen, key, cmdBytes)) \<longrightarrow>
           hd tried = 2)"
proof -
  have i: "initKeyLen 1 userCmd = Inr (length userCmd div 100 + 1)
   \<and> initKeyLen 2 userCmd = Inr (length userCmd div 10 + 1)
   \<and> initKeyLen 3 userCmd = Inr (length userCmd)"
    by (simp add: initKeyLen_def)
  have f1: "int (length userCmd div 100 + 1) = \<lfloor>real (length userCmd) / 100\<rfloor> + 1"
    using floor_div_nat [of "length userCmd" 100] by simp
  have f2: "int (length userCmd div 10 + 1) = \<lfloor>real (length userCmd) / 10\<rfloor> + 1"
    using floor_div_nat [of "length userCmd" 10] by simp
  have tr: "\<exists>keyLen0. initKeyLen p cmd = Inr keyLen0 \<and> tried = [Suc keyLen0..<Suc keyLen]
                     \<and> keyLen0 < keyLen \<and> hd tried = Suc keyLen0"
    if "XorNonNull_cipher rnd c charList p cmd = Some (Inr (tried, keyLen, key, cmdBytes))"
    for p cmd tried keyLen key cmdBytes
  proof -
    from that obtain k0 c1 where
      k0: "initKeyLen p cmd = Inr k0"
      and ks: "keySearch rnd charList cmd k0 [] c = Some (Inr (tried, keyLen, key, c1))"
      by (auto simp: XorNonNull_cipher_def split: sum.splits option.splits prod.splits)
    from keySearch_result [OF ks] have lt: "k0 < keyLen" and t: "tried = [Suc k0..<Suc keyLen]"
      by simp_all
    have "hd [Suc k0..<Suc keyLen] = Suc k0"
      using lt by (simp add: upt_conv_Cons del: upt_Suc)
    then have "hd tried = Suc k0" by (simp only: t)
    then show ?thesis using k0 lt t by blast
  qed
  have l: "initKeyLen 1 ''ls -la'' = Inr 1" by (simp add: initKeyLen_def)
  have "hd tried = 2"
    if "XorNonNull_cipher rnd c charList 1 ''ls -la'' = Some (Inr (tried, keyLen, key, cmdBytes))"
    for tried keyLen key cmdBytes
    using tr [OF that] l by auto
  then show ?thesis using i f1 f2 tr l by blast
qed

theorem XorNonNull_initial_key_length_witness:
  "XorNonNull_cipher (\<lambda>_. 0) 0 ''abc'' 1 ''ls -la''
        = Some (Inr ([2], 2, [97, 98], [13, 17, 65, 79, 13, 3]))
   \<and> (\<exists>keyLen0. initKeyLen 1 ''ls -la'' = Inr keyLen0 \<and> [2] = [Suc keyLen0..<Suc 2]
                     \<and> keyLen0 < 2 \<and> hd [2] = Suc keyLen0)"
proof -
  have x: "XorNonNull_cipher (\<lambda>_. 0) 0 ''abc'' 1 ''ls -la''
        = Some (Inr ([2], 2, [97, 98], [13, 17, 65, 79, 13, 3]))" by code_simp
  note t = XorNonNull_initial_key_length [where rnd = "\<lambda>_. 0" and c = 0 and charList = "''abc''"
      and pref = 1 and userCmd = "''ls -la''"]
  note t5 = t [THEN conjunct2, THEN conjunct2, THEN conjunct2, THEN conjunct2, THEN conjunct2,
      THEN conjunct1]
  from t5 [THEN spec, THEN spec, THEN spec, THEN spec, THEN mp, OF x]
  show ?thesis using x by blast
qed

text \<open>
  The claim as the spec states it fails on the command \<open>ls -la\<close> with size preference 1:
  \<open>\<lceil>6 / 100\<rceil> + 1\<close> is 2 and not the initial value 1 of \<open>keyLen\<close>, and the first (here
  the only) length at which a key is generated is 2, not the initial value: the list of
  the lengths tried is \<open>[2]\<close>.
\<close>

theorem XorNonNull_initial_key_length_counterexample:
  "initKeyLen 1 ''ls -la'' = Inr 1
   \<and> \<lceil>real (length ''ls -la'') / 100\<rceil> + 1 = (2 :: int)
   \<and> XorNonNull_cipher (\<lambda>_. 0) 0 ''abcdefghijklmnopqrstuvwxyzABCDEFGHIJKLMNOPQRSTUVWXYZ0123456789'' 1 ''ls -la''
        = Some (Inr ([2], 2, [97, 98], [13, 17, 65, 79, 13, 3]))"
proof -
  have l: "initKeyLen 1 ''ls -la'' = Inr 1" by (simp add: initKeyLen_def)
  have "\<lceil>(6 :: real) / 100\<rceil> = 1" by (simp add: ceiling_eq_iff)
  then have c: "\<lceil>real (length ''ls -la'') / 100\<rceil> + 1 = (2 :: int)" by simp
  have x: "XorNonNull_cipher (\<lambda>_. 0) 0 ''abcdefghijklmnopqrstuvwxyzABCDEFGHIJKLMNOPQRSTUVWXYZ0123456789'' 1 ''ls -la''
        = Some (Inr ([2], 2, [97, 98], [13, 17, 65, 79, 13, 3]))" by code_simp
  show ?thesis by (intro conjI l c x)
qed

section \<open>HexHash: the slice of the digest\<close>

lemma find_sub_Some:
  "find_sub needle hay = Some i \<Longrightarrow>
     take (length needle) (drop i hay) = needle \<and> i + length needle \<le> length hay"
proof (induction hay arbitrary: i)
  case Nil
  then show ?case by (simp split: if_splits)
next
  case (Cons h hay)
  show ?case
  proof (cases "take (length needle) (h # hay) = needle")
    case True
    then have "i = 0" using Cons.prems by simp
    moreover have "length (take (length needle) (h # hay)) = length needle"
      using True by simp
    then have "length needle \<le> length (h # hay)"
      by (simp add: min_def split: if_splits)
    ultimately show ?thesis using True by simp
  next
    case False
    then obtain i' where i: "i = Suc i'" and f: "find_sub needle hay = Some i'"
      using Cons.prems by auto
    from Cons.IH [OF f] show ?thesis using i by simp
  qed
qed

lemma hexdigit_val_hexdigit: "n < 16 \<Longrightarrow> hexdigit_val (hexdigit n) = n"
proof -
  assume n: "n < 16"
  have "list_all (\<lambda>n. hexdigit_val (hexdigit n) = n) [0..<16]" by code_simp
  then show ?thesis using n by (simp add: list_all_iff)
qed

lemma hex_val_hex_byte: "hex_val (hex_byte b) = unat b"
proof -
  have "unat b < 256" using unsigned_less [of b] by simp
  then have "unat b div 16 < 16" by simp
  then show ?thesis
    by (simp add: hex_val_def hex_byte_def hexdigit_val_hexdigit)
qed

lemma hexchar_ascii:
  "(of_char ch :: nat) < 128 \<Longrightarrow> hexchar ch = hex_byte (of_nat (of_char ch))"
  by (simp add: hexchar_def utf8_char_def bytes_hex_def)

lemma hashSearch_result:
  assumes "hashSearch md5 rnd cl lo hi hexch rs rh c = Some (Inr (rs', rh', c'))"
  shows "py_in hexch rh' \<and> ((rs' = rs \<and> rh' = rh) \<or> (\<exists>s. rs' = Some s \<and> rh' = md5 (utf8 s)))"
proof -
  define P where "P = (\<lambda>(md5 :: byte list \<Rightarrow> string) (rnd :: tape) (cl :: string) (lo :: nat)
        (hi :: nat) hexch rs rh (c :: nat) (y :: py_error + (string option \<times> string \<times> nat)).
        \<forall>rs' rh' c'. y = Inr (rs', rh', c') \<longrightarrow>
          py_in hexch rh' \<and> ((rs' = rs \<and> rh' = rh) \<or> (\<exists>s. rs' = Some s \<and> rh' = md5 (utf8 s))))"
  have "P md5 rnd cl lo hi hexch rs rh c (Inr (rs', rh', c'))"
  proof (rule hashSearch.raw_induct [where P = P, OF _ assms])
    fix f md5 rnd cl lo hi hexch rs rh c y
    assume IH: "\<And>md5 rnd cl lo hi hexch rs rh c y.
        f md5 rnd cl lo hi hexch rs rh c = Some y \<Longrightarrow> P md5 rnd cl lo hi hexch rs rh c y"
      and body: "(if \<not> py_in hexch rh then
                    (case randGenStr rnd c cl lo hi of
                       Inl e \<Rightarrow> Some (Inl e)
                     | Inr (s, c') \<Rightarrow> f md5 rnd cl lo hi hexch (Some s) (md5 (utf8 s)) c')
                  else Some (Inr (rs, rh, c))) = Some y"
    show "P md5 rnd cl lo hi hexch rs rh c y"
      unfolding P_def
    proof (intro allI impI)
      fix rs' rh' c'
      assume y: "y = Inr (rs', rh', c')"
      show "py_in hexch rh' \<and> ((rs' = rs \<and> rh' = rh) \<or> (\<exists>s. rs' = Some s \<and> rh' = md5 (utf8 s)))"
      proof (cases "py_in hexch rh")
        case True
        with body y show ?thesis by simp
      next
        case False
        show ?thesis
        proof (cases "randGenStr rnd c cl lo hi")
          case (Inl e)
          with body False y show ?thesis by simp
        next
          case (Inr p)
          obtain s c1 where p: "p = (s, c1)" by (cases p)
          with body False Inr have "f md5 rnd cl lo hi hexch (Some s) (md5 (utf8 s)) c1 = Some y"
            by simp
          from IH [OF this] y show ?thesis unfolding P_def by blast
        qed
      qed
    qed
  qed
  then show ?thesis unfolding P_def by blast
qed

lemma cut_b_slice: "cut_b (Suc i) (Suc (Suc i)) line = take 2 (drop i line)"
  by (simp add: cut_b_def)

lemma dec_val_snoc: "dec_val (s @ [d]) = dec_val s * 10 + ((of_char d :: nat) - 48)"
  by (simp add: dec_val_def)

lemma dec_val_str_nat: "dec_val (str_nat n) = n"
proof (induction n rule: str_nat.induct)
  case (1 n)
  show ?case
  proof (cases "n < 10")
    case True
    then show ?thesis by (subst str_nat.simps) (simp add: dec_val_def)
  next
    case False
    have "n mod 10 < 10" by simp
    then have d: "(of_char (char_of (48 + n mod 10)) :: nat) - 48 = n mod 10" by simp
    have "dec_val (str_nat n) = dec_val (str_nat (n div 10)) * 10 + n mod 10"
      using False by (subst str_nat.simps) (simp add: dec_val_snoc d del: of_char_of)
    then show ?thesis using 1 False by simp
  qed
qed

lemma dec_val_str_int: "0 \<le> i \<Longrightarrow> dec_val (str_int i) = nat i"
  by (simp add: str_int_def dec_val_str_nat)

text \<open>
  C9. For an ASCII character \<open>ch\<close> of the command, when the search loop of \<open>HexHash.mutate\<close>
  ends, with the seed \<open>randomString\<close>, its digest \<open>randomhash\<close> and \<open>index\<close>: the digest is
  the digest of the recorded seed; \<open>hexchar\<close> is the two hexadecimal digits of the byte of
  \<open>ch\<close> and stands in the digest from the offset \<open>index\<close> on. The line added for \<open>ch\<close> is
  \<open>* *:printf:^ ^"\x$(:printf:^ ^%s^ ^'randomString'* *|* *:md5sum:* *|* *:cut:^ ^-b^ ^LO-HI* *)"* *END0\<close>
  where \<open>LO\<close> is \<open>str(index + 1)\<close> and \<open>HI\<close> is \<open>str(index + 2)\<close>; read as decimal numerals
  they are \<open>index + 1\<close> and \<open>index + 2\<close>, and the bytes \<open>LO\<close> to \<open>HI\<close> that \<open>cut\<close> keeps from
  the line of the digest (whatever follows the digest on that line) are the two digits of
  the byte of \<open>ch\<close>, whose value is that byte.
\<close>

theorem HexHash_slice_is_byte:
  assumes "(of_char ch :: nat) < 128"
    and "HexHash_char md5 rnd charList lo hi ch c = Some (Inr (randomString, randomhash, index, c'))"
  shows "randomhash = md5 (utf8 randomString)
       \<and> hexchar ch = hex_byte (of_nat (of_char ch))
       \<and> 0 \<le> index \<and> nat index + 2 \<le> length randomhash
       \<and> take 2 (drop (nat index) randomhash) = hexchar ch
       \<and> HexHash_loop md5 rnd charList lo hi m (ch # userCmd) c
           = HexHash_loop md5 rnd charList lo hi
               (m @ [PayloadLine
                       (''* *:printf:^ ^'' @ [CHR 0x22, CHR 0x5C] @ ''x$(:printf:^ ^%s^ ^''
                          @ [CHR 0x27] @ randomString @ [CHR 0x27]
                          @ ''* *|* *:md5sum:* *|* *:cut:^ ^-b^ ^'' @ str_int (index + 1) @ ''-''
                          @ str_int (index + 2) @ ''* *)'' @ [CHR 0x22] @ ''* *END0'')])
               userCmd c'
       \<and> hashLine randomString index
           = ''* *:printf:^ ^'' @ [CHR 0x22, CHR 0x5C] @ ''x$(:printf:^ ^%s^ ^''
               @ [CHR 0x27] @ randomString @ [CHR 0x27]
               @ ''* *|* *:md5sum:* *|* *:cut:^ ^-b^ ^'' @ str_int (index + 1) @ ''-''
               @ str_int (index + 2) @ ''* *)'' @ [CHR 0x22] @ ''* *END0''
       \<and> dec_val (str_int (index + 1)) = nat index + 1
       \<and> dec_val (str_int (index + 2)) = nat index + 2
       \<and> (\<forall>rest. cut_b (dec_val (str_int (index + 1))) (dec_val (str_int (index + 2)))
                   (randomhash @ rest) = hex_byte (of_nat (of_char ch)))
       \<and> hex_val (cut_b (dec_val (str_int (index + 1))) (dec_val (str_int (index + 2))) randomhash)
           = of_char ch
       \<and> (\<forall>rest. cut_b (nat (index + 1)) (nat (index + 2)) (randomhash @ rest) = hexchar ch)
       \<and> hex_val (cut_b (nat (index + 1)) (nat (index + 2)) randomhash) = of_char ch"
proof -
  have hx: "hexchar ch = hex_byte (of_nat (of_char ch))" using assms(1) by (rule hexchar_ascii)
  then have l2: "length (hexchar ch) = 2" by (simp add: hex_byte_def)
  from assms(2) obtain rs where
    hs: "hashSearch md5 rnd charList lo hi (hexchar ch) None [] c = Some (Inr (rs, randomhash, c'))"
    and rs: "rs = Some randomString" and ix: "index = py_find randomhash (hexchar ch)"
    by (auto simp: HexHash_char_def split: option.splits sum.splits prod.splits)
  from hashSearch_result [OF hs] have pin: "py_in (hexchar ch) randomhash"
    and d: "(rs = None \<and> randomhash = []) \<or> (\<exists>s. rs = Some s \<and> randomhash = md5 (utf8 s))"
    by simp_all
  from d rs have digest: "randomhash = md5 (utf8 randomString)" by auto
  from pin obtain i where f: "find_sub (hexchar ch) randomhash = Some i"
    by (auto simp: py_in_def)
  then have index: "index = int i" using ix by (simp add: py_find_def)
  have i0: "0 \<le> index" using index by simp
  from find_sub_Some [OF f] l2 have sl: "take 2 (drop i randomhash) = hexchar ch"
    and bound: "i + 2 \<le> length randomhash" by simp_all
  have sl': "take 2 (drop (nat index) randomhash) = hexchar ch" using sl index by simp
  have bound': "nat index + 2 \<le> length randomhash" using bound index by simp
  have n1: "nat (index + 1) = Suc i" and n2: "nat (index + 2) = Suc (Suc i)"
    using index by simp_all
  have d1: "dec_val (str_int (index + 1)) = nat index + 1"
    using dec_val_str_int [of "index + 1"] index by simp
  have d2: "dec_val (str_int (index + 2)) = nat index + 2"
    using dec_val_str_int [of "index + 2"] index by simp
  have cut: "cut_b (nat (index + 1)) (nat (index + 2)) (randomhash @ rest) = hexchar ch" for rest
    using sl bound by (simp add: n1 n2 cut_b_slice)
  have cutall: "\<forall>rest. cut_b (nat (index + 1)) (nat (index + 2)) (randomhash @ rest) = hexchar ch"
    using cut by simp
  from cut [of "[]"] have "hex_val (cut_b (nat (index + 1)) (nat (index + 2)) randomhash)
      = hex_val (hex_byte (of_nat (of_char ch)))" by (simp add: hx)
  also have "\<dots> = unat (of_nat (of_char ch) :: byte)" by (rule hex_val_hex_byte)
  also have "\<dots> = of_char ch" using assms(1) by (simp add: unat_of_nat)
  finally have val: "hex_val (cut_b (nat (index + 1)) (nat (index + 2)) randomhash) = of_char ch" .
  have e1: "dec_val (str_int (index + 1)) = nat (index + 1)" using d1 index by simp
  have e2: "dec_val (str_int (index + 2)) = nat (index + 2)" using d2 index by simp
  have dcut: "\<forall>rest. cut_b (dec_val (str_int (index + 1))) (dec_val (str_int (index + 2)))
                   (randomhash @ rest) = hex_byte (of_nat (of_char ch))"
    using cut hx by (simp only: e1 e2) simp
  have dval: "hex_val (cut_b (dec_val (str_int (index + 1))) (dec_val (str_int (index + 2))) randomhash)
           = of_char ch"
    using val by (simp only: e1 e2)
  have line: "hashLine randomString index
           = ''* *:printf:^ ^'' @ [CHR 0x22, CHR 0x5C] @ ''x$(:printf:^ ^%s^ ^''
               @ [CHR 0x27] @ randomString @ [CHR 0x27]
               @ ''* *|* *:md5sum:* *|* *:cut:^ ^-b^ ^'' @ str_int (index + 1) @ ''-''
               @ str_int (index + 2) @ ''* *)'' @ [CHR 0x22] @ ''* *END0''"
    by (simp add: hashLine_def)
  have loop0: "HexHash_loop md5 rnd charList lo hi m (ch # userCmd) c
           = HexHash_loop md5 rnd charList lo hi (m @ [PayloadLine (hashLine randomString index)]) userCmd c'"
    using assms(2) by (simp add: addPayloadLine_def)
  have loop: "HexHash_loop md5 rnd charList lo hi m (ch # userCmd) c
           = HexHash_loop md5 rnd charList lo hi
               (m @ [PayloadLine
                       (''* *:printf:^ ^'' @ [CHR 0x22, CHR 0x5C] @ ''x$(:printf:^ ^%s^ ^''
                          @ [CHR 0x27] @ randomString @ [CHR 0x27]
                          @ ''* *|* *:md5sum:* *|* *:cut:^ ^-b^ ^'' @ str_int (index + 1) @ ''-''
                          @ str_int (index + 2) @ ''* *)'' @ [CHR 0x22] @ ''* *END0'')])
               userCmd c'"
    using loop0 by (simp only: line)
  show ?thesis
    by (intro conjI digest hx i0 bound' sl' loop line d1 d2 dcut dval cutall val)
qed

theorem HexHash_slice_is_byte_witness:
  "(of_char (CHR ''B'') :: nat) < 128
   \<and> HexHash_char (\<lambda>bs. ''d41d8cd98f00b204e9800998ecf8427e'') (\<lambda>_. 0) ''ab'' 1 3 (CHR ''B'') 0
        = Some (Inr (''a'', ''d41d8cd98f00b204e9800998ecf8427e'', 28, 2))
   \<and> take 2 (drop (nat 28) ''d41d8cd98f00b204e9800998ecf8427e'') = hexchar (CHR ''B'')
   \<and> HexHash_mutate (\<lambda>bs. ''d41d8cd98f00b204e9800998ecf8427e'') (\<lambda>_. 0) ''ab'' 1 3 ''B'' 0
        = Some (Inr [PayloadLine
                       (''* *:printf:^ ^'' @ [CHR 0x22, CHR 0x5C] @ ''x$(:printf:^ ^%s^ ^''
                          @ [CHR 0x27] @ ''a'' @ [CHR 0x27]
                          @ ''* *|* *:md5sum:* *|* *:cut:^ ^-b^ ^29-30* *)'' @ [CHR 0x22]
                          @ ''* *END0''),
                     Junk])
   \<and> dec_val ''29'' = 29 \<and> dec_val ''30'' = 30
   \<and> cut_b 29 30 ''d41d8cd98f00b204e9800998ecf8427e  -'' = ''42''
   \<and> hex_val ''42'' = of_char (CHR ''B'')"
proof -
  let ?md5 = "\<lambda>bs :: byte list. ''d41d8cd98f00b204e9800998ecf8427e''"
  have a: "(of_char (CHR ''B'') :: nat) < 128" by simp
  have b: "HexHash_char ?md5 (\<lambda>_. 0) ''ab'' 1 3 (CHR ''B'') 0
        = Some (Inr (''a'', ''d41d8cd98f00b204e9800998ecf8427e'', 28, 2))" by code_simp
  note t = HexHash_slice_is_byte [OF a b]
  note t4 = t [THEN conjunct2, THEN conjunct2, THEN conjunct2, THEN conjunct2]
  have s: "take 2 (drop (nat 28) ''d41d8cd98f00b204e9800998ecf8427e'') = hexchar (CHR ''B'')"
    by (rule t4 [THEN conjunct1])
  note t5 = t4 [THEN conjunct2]
  have s29: "str_int 29 = ''29''" by code_simp
  have s30: "str_int 30 = ''30''" by code_simp
  have hb: "hex_byte 66 = ''42''" by code_simp
  have loop: "HexHash_loop ?md5 (\<lambda>_. 0) ''ab'' 1 3 [] ''B'' 0
        = Some (Inr [PayloadLine
                       (''* *:printf:^ ^'' @ [CHR 0x22, CHR 0x5C] @ ''x$(:printf:^ ^%s^ ^''
                          @ [CHR 0x27] @ ''a'' @ [CHR 0x27]
                          @ ''* *|* *:md5sum:* *|* *:cut:^ ^-b^ ^29-30* *)'' @ [CHR 0x22]
                          @ ''* *END0'')])"
    using t5 [THEN conjunct1, of "[]" "[]"] by (simp add: s29 s30)
  have run: "HexHash_mutate ?md5 (\<lambda>_. 0) ''ab'' 1 3 ''B'' 0
        = Some (Inr [PayloadLine
                       (''* *:printf:^ ^'' @ [CHR 0x22, CHR 0x5C] @ ''x$(:printf:^ ^%s^ ^''
                          @ [CHR 0x27] @ ''a'' @ [CHR 0x27]
                          @ ''* *|* *:md5sum:* *|* *:cut:^ ^-b^ ^29-30* *)'' @ [CHR 0x22]
                          @ ''* *END0''),
                     Junk])"
    unfolding HexHash_mutate_def loop by (simp add: addJunk_def)
  note t7 = t5 [THEN conjunct2, THEN conjunct2]
  have d29: "dec_val ''29'' = 29" using t7 [THEN conjunct1] by (simp add: s29)
  have d30: "dec_val ''30'' = 30" using t7 [THEN conjunct2, THEN conjunct1] by (simp add: s30)
  have c: "cut_b 29 30 ''d41d8cd98f00b204e9800998ecf8427e  -'' = ''42''"
    using t7 [THEN conjunct2, THEN conjunct2, THEN conjunct1, THEN spec, of "''  -''"]
    by (simp add: s29 s30 d29 d30 hb)
  have v: "hex_val ''42'' = of_char (CHR ''B'')"
    using t7 [THEN conjunct2, THEN conjunct2, THEN conjunct2, THEN conjunct1] c
    by (simp add: s29 s30 d29 d30 cut_b_def)
  show ?thesis by (intro conjI a b s run d29 d30 c v)
qed

end
